theory Spec2Isabelle
  imports Complex_Main "HOL-Library.AList" "HOL-Library.Multiset"
begin

text \<open>
  A model of the data handling of a personal-finance dashboard written in TypeScript: the
  CSV tokenizer, the normalization of dates and numbers, the parser that builds transaction
  records (\<open>UploadSection.tsx\<close>), the upload handler, and the aggregations of the chart
  sections (by category, top entries, monthly trend). Each function of the source is a
  function here under its own name; an exception is a result \<open>Inl\<close>, a loop is a recursion
  over the list it runs through, and an object used as a map is an association list with
  the lookup rules of JavaScript objects.
\<close>

section \<open>Strings\<close>

text \<open>
  A JavaScript string is modelled as the list of its code units; \<^typ>\<open>char\<close> covers the
  code units \<open>0..255\<close>, so code units above \<open>255\<close> are not represented. The predicates
  below are the ECMAScript character classes restricted to that range.
\<close>

definition isWhiteSpace :: "char \<Rightarrow> bool" where
  \<comment> \<open>WhiteSpace and LineTerminator as stripped by \<open>String.prototype.trim\<close>:
      TAB, LF, VT, FF, CR, SP, NBSP.\<close>
  "isWhiteSpace c = (of_char c \<in> {9, 10, 11, 12, 13, 32, 160 :: nat})"

definition isDigit :: "char \<Rightarrow> bool" where
  \<comment> \<open>the regular-expression class \<open>\d\<close>, that is \<open>[0-9]\<close>\<close>
  "isDigit c = (48 \<le> (of_char c :: nat) \<and> (of_char c :: nat) \<le> 57)"

definition trimStart :: "string \<Rightarrow> string" where
  "trimStart s = dropWhile isWhiteSpace s"

definition trim :: "string \<Rightarrow> string" where
  "trim s = rev (dropWhile isWhiteSpace (rev (dropWhile isWhiteSpace s)))"

definition toLowerChar :: "char \<Rightarrow> char" where
  \<comment> \<open>\<open>A-Z\<close> and the Latin-1 capitals \<open>0xC0-0xDE\<close> (without the multiplication sign
      \<open>0xD7\<close>) move up by 32; every other code unit below 256 is its own lower case.\<close>
  "toLowerChar c =
     (let n = (of_char c :: nat)
      in if (65 \<le> n \<and> n \<le> 90) \<or> (192 \<le> n \<and> n \<le> 222 \<and> n \<noteq> 215)
         then char_of (n + 32) else c)"

definition toLowerCase :: "string \<Rightarrow> string" where
  "toLowerCase s = map toLowerChar s"

fun startsWith :: "string \<Rightarrow> string \<Rightarrow> bool" where
  "startsWith s [] = True"
| "startsWith [] (p # ps) = False"
| "startsWith (c # cs) (p # ps) = (c = p \<and> startsWith cs ps)"

fun includes_str :: "string \<Rightarrow> string \<Rightarrow> bool" where
  "includes_str [] sub = (sub = [])"
| "includes_str (c # cs) sub = (startsWith (c # cs) sub \<or> includes_str cs sub)"

definition endsWith :: "string \<Rightarrow> string \<Rightarrow> bool" where
  "endsWith s suf = startsWith (rev s) (rev suf)"

fun split_on :: "(char \<Rightarrow> bool) \<Rightarrow> string \<Rightarrow> string list" where
  \<comment> \<open>\<open>s.split(sep)\<close> for a separator that is one character of the class \<open>p\<close>\<close>
  "split_on p [] = [[]]"
| "split_on p (c # cs) =
     (case split_on p cs of
        [] \<Rightarrow> [[c]]
      | piece # pieces \<Rightarrow> if p c then [] # piece # pieces else (c # piece) # pieces)"

definition padStart2 :: "string \<Rightarrow> string" where
  \<comment> \<open>\<open>s.padStart(2, '0')\<close>\<close>
  "padStart2 s = replicate (2 - length s) (CHR ''0'') @ s"

section \<open>CSV tokenizer\<close>

text \<open>
  \<open>parseCSVLine\<close> of \<open>UploadSection.tsx\<close>: the \<open>for\<close> loop over the characters of the line
  with its three variables \<open>result\<close>, \<open>current\<close> and \<open>inQuotes\<close>, followed by the final
  \<open>result.push(current.trim())\<close>.
\<close>

fun parseCSVLine_loop :: "string \<Rightarrow> string list \<Rightarrow> string \<Rightarrow> bool \<Rightarrow> string list" where
  "parseCSVLine_loop [] result current inQuotes = result @ [trim current]"
| "parseCSVLine_loop (c # cs) result current inQuotes =
     (if c = CHR 0x22 then parseCSVLine_loop cs result current (\<not> inQuotes)
      else if c = CHR '','' \<and> \<not> inQuotes then parseCSVLine_loop cs (result @ [trim current]) [] inQuotes
      else parseCSVLine_loop cs result (current @ [c]) inQuotes)"

definition parseCSVLine :: "string \<Rightarrow> string list" where
  "parseCSVLine line = parseCSVLine_loop line [] [] False"

text \<open>
  The specification's wording, independent of the loop: a comma is outside every quoted
  span when an even number of double quotes precedes it.
\<close>

definition commas_outside_quotes :: "string \<Rightarrow> nat" where
  "commas_outside_quotes line =
     length (filter (\<lambda>i. line ! i = CHR '','' \<and> even (length (filter (\<lambda>c. c = CHR 0x22) (take i line))))
               [0..<length line])"

definition is_trimmed :: "string \<Rightarrow> bool" where
  "is_trimmed s = (s = [] \<or> (\<not> isWhiteSpace (hd s) \<and> \<not> isWhiteSpace (last s)))"

fun commas_from :: "string \<Rightarrow> bool \<Rightarrow> nat" where
  \<comment> \<open>the commas at which the loop pushes a field, counted from a given quote state\<close>
  "commas_from [] inQuotes = 0"
| "commas_from (c # cs) inQuotes =
     (if c = CHR 0x22 then commas_from cs (\<not> inQuotes)
      else if c = CHR '','' \<and> \<not> inQuotes then Suc (commas_from cs inQuotes)
      else commas_from cs inQuotes)"

section \<open>Numbers\<close>

text \<open>
  A JavaScript number is modelled by its exact value: a rational, \<open>NaN\<close>, or one of the two
  infinities. Rounding to IEEE-754 doubles is not modelled, and \<open>-0\<close> is \<open>0\<close> (both are
  falsy, and every use below goes through \<open>|| 0\<close> or a comparison). So a decimal beyond
  the range of doubles keeps its value here (the code reads \<open>1e400\<close> as \<open>Infinity\<close> and
  \<open>-1e-400\<close> as \<open>-0\<close>), an integer above \<open>2^53\<close> is not rounded, and a sum is the exact
  sum. What is proved about parsed amounts is when they are \<open>0\<close> and when they can be
  negative; rounding keeps zero and never turns a non-negative value negative.
\<close>

datatype js_number = NaN | Fin rat | PosInfinity | NegInfinity

datatype js_error = TypeError | OutsideModel
  \<comment> \<open>\<open>TypeError\<close> is the JavaScript exception (a property read or a call on \<open>undefined\<close>
      or on a value without that method). \<open>OutsideModel\<close> is not an exception: it marks an
      argument of a library call (\<open>Date\<close>, date-fns) that this model does not evaluate.\<close>

definition digit_value :: "char \<Rightarrow> nat" where
  "digit_value c = of_char c - 48"

definition decimal_value :: "string \<Rightarrow> nat" where
  "decimal_value ds = foldl (\<lambda>n c. 10 * n + digit_value c) 0 ds"

definition take_sign :: "string \<Rightarrow> bool \<times> string" where
  \<comment> \<open>an optional \<open>+\<close> or \<open>-\<close>; the flag says that the sign is \<open>-\<close>\<close>
  "take_sign s =
     (case s of
        [] \<Rightarrow> (False, [])
      | c # cs \<Rightarrow> if c = CHR ''-'' then (True, cs)
                  else if c = CHR ''+'' then (False, cs) else (False, c # cs))"

definition scale10 :: "int \<Rightarrow> rat \<Rightarrow> rat" where
  "scale10 k x = (if 0 \<le> k then x * 10 ^ nat k else x / 10 ^ nat (- k))"

definition exponent_part :: "string \<Rightarrow> int" where
  \<comment> \<open>ExponentPart: \<open>e\<close> or \<open>E\<close>, an optional sign, at least one digit; \<open>0\<close> when the text
      does not start with one\<close>
  "exponent_part s =
     (case s of
        [] \<Rightarrow> 0
      | c # cs \<Rightarrow>
          if c = CHR ''e'' \<or> c = CHR ''E''
          then (let (neg, r) = take_sign cs; ds = takeWhile isDigit r
                in if ds = [] then 0
                   else if neg then - int (decimal_value ds) else int (decimal_value ds))
          else 0)"

definition parseFloat :: "string \<Rightarrow> js_number" where
  \<comment> \<open>the global \<open>parseFloat\<close>: leading white space is skipped, then the longest prefix that
      is a StrDecimalLiteral is converted; \<open>NaN\<close> when there is none\<close>
  "parseFloat string =
     (let (neg, u) = take_sign (trimStart string)
      in if startsWith u ''Infinity'' then (if neg then NegInfinity else PosInfinity)
         else
           let ip = takeWhile isDigit u;
               r1 = dropWhile isDigit u;
               hasDot = (r1 \<noteq> [] \<and> hd r1 = CHR ''.'');
               fp = (if hasDot then takeWhile isDigit (tl r1) else []);
               r2 = (if hasDot then dropWhile isDigit (tl r1) else r1)
           in if ip = [] \<and> fp = [] then NaN
              else
                let v = scale10 (exponent_part r2 - int (length fp)) (of_nat (decimal_value (ip @ fp)))
                in Fin (if neg then - v else v))"

definition or_zero :: "js_number \<Rightarrow> js_number" where
  \<comment> \<open>\<open>x || 0\<close> for a number \<open>x\<close>: \<open>NaN\<close> and \<open>0\<close> are falsy\<close>
  "or_zero x = (case x of NaN \<Rightarrow> Fin 0 | _ \<Rightarrow> x)"

definition remove_commas :: "string \<Rightarrow> string" where
  \<comment> \<open>\<open>value.replace(/,/g, '')\<close>\<close>
  "remove_commas v = filter (\<lambda>c. c \<noteq> CHR '','') v"

definition parseNumber :: "string \<Rightarrow> js_number" where
  "parseNumber v =
     (if v = [] then Fin 0
      else let cleaned = remove_commas v in or_zero (parseFloat cleaned))"

definition is_negative :: "js_number \<Rightarrow> bool" where
  "is_negative x = (case x of Fin r \<Rightarrow> r < 0 | NegInfinity \<Rightarrow> True | _ \<Rightarrow> False)"

section \<open>Date normalization\<close>

text \<open>
  The two regular expressions of \<open>normalizeDate\<close> are anchored sequences of quantified
  character classes. An item \<open>(p, lo, hi)\<close> is the class \<open>p\<close> repeated between \<open>lo\<close> and
  \<open>hi\<close> times; \<open>re_test\<close> is \<open>RegExp.prototype.test\<close> for \<open>^ items $\<close>.
\<close>

type_synonym re_item = "(char \<Rightarrow> bool) \<times> nat \<times> nat"

fun re_test :: "re_item list \<Rightarrow> string \<Rightarrow> bool" where
  "re_test [] s = (s = [])"
| "re_test ((p, lo, hi) # items) s =
     list_ex (\<lambda>k. k \<le> length s \<and> list_all p (take k s) \<and> re_test items (drop k s)) [lo..<Suc hi]"

definition isDateSep :: "char \<Rightarrow> bool" where
  \<comment> \<open>the class \<open>[/-]\<close>\<close>
  "isDateSep c = (c = CHR ''/'' \<or> c = CHR ''-'')"

definition re_ymd :: "re_item list" where
  \<comment> \<open>\<open>/^\d{4}[/-]\d{1,2}[/-]\d{1,2}$/\<close>\<close>
  "re_ymd = [(isDigit, 4, 4), (isDateSep, 1, 1), (isDigit, 1, 2), (isDateSep, 1, 1), (isDigit, 1, 2)]"

definition re_mdy :: "re_item list" where
  \<comment> \<open>\<open>/^\d{1,2}[/-]\d{1,2}[/-]\d{4}$/\<close>\<close>
  "re_mdy = [(isDigit, 1, 2), (isDateSep, 1, 1), (isDigit, 1, 2), (isDateSep, 1, 1), (isDigit, 4, 4)]"

definition normalizeDate :: "string \<Rightarrow> js_error + string" where
  \<comment> \<open>\<open>parts[i].padStart\<close> throws a TypeError when \<open>parts[i]\<close> is \<open>undefined\<close>; a bare
      \<open>parts[2]\<close> that is \<open>undefined\<close> prints as \<open>undefined\<close> in the template string.\<close>
  "normalizeDate dateStr =
     (if dateStr = [] then Inr []
      else
        let cleaned = trim dateStr
        in if re_test re_ymd cleaned
           then (case split_on isDateSep cleaned of
                   year # month # day # _ \<Rightarrow> Inr (year @ ''-'' @ padStart2 month @ ''-'' @ padStart2 day)
                 | _ \<Rightarrow> Inl TypeError)
           else if re_test re_mdy cleaned
           then (case split_on isDateSep cleaned of
                   month # day # year # _ \<Rightarrow> Inr (year @ ''-'' @ padStart2 month @ ''-'' @ padStart2 day)
                 | [month, day] \<Rightarrow> Inr (''undefined'' @ ''-'' @ padStart2 month @ ''-'' @ padStart2 day)
                 | _ \<Rightarrow> Inl TypeError)
           else Inr cleaned)"

section \<open>CSV parsing\<close>

text \<open>
  The object \<open>transaction: any\<close> that \<open>parseCSV\<close> fills: a property that was never assigned
  is \<open>undefined\<close>, here \<open>None\<close>.
\<close>

record parsed_transaction =
  p_date :: "string option"
  p_category :: "string option"
  p_subcategory :: "string option"
  p_income :: "js_number option"
  p_expense :: "js_number option"
  p_note :: "string option"
  p_paid_from :: "string option"

definition empty_transaction :: parsed_transaction where
  "empty_transaction =
     \<lparr>p_date = None, p_category = None, p_subcategory = None, p_income = None,
      p_expense = None, p_note = None, p_paid_from = None\<rparr>"

datatype field_kind = DateF | CategoryF | SubcategoryF | IncomeF | ExpenseF | NoteF | PaidFromF | NoField

definition header_field :: "string \<Rightarrow> field_kind" where
  \<comment> \<open>the \<open>if / else if\<close> chain of the \<open>forEach\<close> callback: which branch a header takes\<close>
  "header_field header =
     (if includes_str header ''date'' \<or> header = ''date'' then DateF
      else if includes_str header ''category'' \<and> \<not> includes_str header ''sub'' then CategoryF
      else if includes_str header ''subcategory'' \<or> includes_str header ''sub'' then SubcategoryF
      else if includes_str header ''income'' then IncomeF
      else if includes_str header ''expense'' then ExpenseF
      else if includes_str header ''note'' \<or> includes_str header ''description'' then NoteF
      else if includes_str header ''paid'' then PaidFromF
      else NoField)"

definition value_at :: "string list \<Rightarrow> nat \<Rightarrow> string" where
  \<comment> \<open>\<open>values[index] || ""\<close>\<close>
  "value_at values index = (if index < length values then values ! index else [])"

definition assign_field :: "parsed_transaction \<Rightarrow> string \<Rightarrow> string \<Rightarrow> js_error + parsed_transaction" where
  \<comment> \<open>the body of the \<open>forEach\<close> callback, for one header and its value\<close>
  "assign_field transaction header v =
     (case header_field header of
        DateF \<Rightarrow> (case normalizeDate v of
                    Inl e \<Rightarrow> Inl e
                  | Inr d \<Rightarrow> Inr (transaction\<lparr>p_date := Some d\<rparr>))
      | CategoryF \<Rightarrow> Inr (transaction\<lparr>p_category := Some v\<rparr>)
      | SubcategoryF \<Rightarrow> Inr (transaction\<lparr>p_subcategory := Some v\<rparr>)
      | IncomeF \<Rightarrow> Inr (transaction\<lparr>p_income := Some (parseNumber v)\<rparr>)
      | ExpenseF \<Rightarrow> Inr (transaction\<lparr>p_expense := Some (parseNumber v)\<rparr>)
      | NoteF \<Rightarrow> Inr (transaction\<lparr>p_note := Some v\<rparr>)
      | PaidFromF \<Rightarrow> Inr (transaction\<lparr>p_paid_from := Some v\<rparr>)
      | NoField \<Rightarrow> Inr transaction)"

fun forEach_headers ::
  "string list \<Rightarrow> nat \<Rightarrow> string list \<Rightarrow> parsed_transaction \<Rightarrow> js_error + parsed_transaction" where
  "forEach_headers [] index values transaction = Inr transaction"
| "forEach_headers (header # headers) index values transaction =
     (case assign_field transaction header (value_at values index) of
        Inl e \<Rightarrow> Inl e
      | Inr transaction' \<Rightarrow> forEach_headers headers (Suc index) values transaction')"

definition truthy :: "string option \<Rightarrow> bool" where
  \<comment> \<open>truthiness of a property holding a string or \<open>undefined\<close>\<close>
  "truthy x = (case x of None \<Rightarrow> False | Some s \<Rightarrow> s \<noteq> [])"

fun parseCSV_loop ::
  "string list \<Rightarrow> string list \<Rightarrow> parsed_transaction list \<Rightarrow> js_error + parsed_transaction list" where
  "parseCSV_loop headers [] transactions = Inr transactions"
| "parseCSV_loop headers (line # lines) transactions =
     (let values = parseCSVLine line
      in if length values < 3 then parseCSV_loop headers lines transactions
         else (case forEach_headers headers 0 values empty_transaction of
                 Inl e \<Rightarrow> Inl e
               | Inr transaction \<Rightarrow>
                   if truthy (p_date transaction) \<and> truthy (p_category transaction)
                   then parseCSV_loop headers lines (transactions @ [transaction])
                   else parseCSV_loop headers lines transactions))"

definition isNewline :: "char \<Rightarrow> bool" where
  "isNewline c = (c = CHR 0x0A)"

definition csv_lines :: "string \<Rightarrow> string list" where
  \<comment> \<open>\<open>text.trim().split("\n")\<close>\<close>
  "csv_lines text = split_on isNewline (trim text)"

definition csv_headers :: "string \<Rightarrow> string list" where
  \<comment> \<open>\<open>parseCSVLine(lines[0]).map(h => h.trim().toLowerCase())\<close>\<close>
  "csv_headers line0 = map (\<lambda>h. toLowerCase (trim h)) (parseCSVLine line0)"

definition parseCSV :: "string \<Rightarrow> js_error + parsed_transaction list" where
  \<comment> \<open>\<open>parseCSVLine(lines[0])\<close> reads \<open>line.length\<close>, a TypeError when \<open>lines\<close> is empty\<close>
  "parseCSV text =
     (case csv_lines text of
        [] \<Rightarrow> Inl TypeError
      | line0 # lines \<Rightarrow> parseCSV_loop (csv_headers line0) lines [])"

text \<open>Vocabulary of the specification for the rows of a CSV text.\<close>

definition data_rows :: "string \<Rightarrow> string list" where
  \<comment> \<open>every line after the header line\<close>
  "data_rows text = tl (csv_lines text)"

definition candidate_rows :: "string \<Rightarrow> string list" where
  "candidate_rows text = filter (\<lambda>line. \<not> length (parseCSVLine line) < 3) (data_rows text)"

definition discarded_rows :: "string \<Rightarrow> string list" where
  "discarded_rows text = filter (\<lambda>line. length (parseCSVLine line) < 3) (data_rows text)"

definition header_line :: "string \<Rightarrow> string" where
  \<comment> \<open>\<open>lines[0]\<close>\<close>
  "header_line text = (case csv_lines text of [] \<Rightarrow> [] | line0 # lines \<Rightarrow> line0)"

fun last_column :: "field_kind \<Rightarrow> string list \<Rightarrow> nat option" where
  \<comment> \<open>the last header that takes the branch of a field: its assignment is the one that stays\<close>
  "last_column kind [] = None"
| "last_column kind (header # headers) =
     (case last_column kind headers of
        Some k \<Rightarrow> Some (Suc k)
      | None \<Rightarrow> if header_field header = kind then Some 0 else None)"

definition is_digits :: "nat \<Rightarrow> string \<Rightarrow> bool" where
  \<comment> \<open>exactly \<open>n\<close> decimal digits\<close>
  "is_digits n s = (length s = n \<and> list_all isDigit s)"

definition is_digits_1_2 :: "string \<Rightarrow> bool" where
  \<comment> \<open>one or two decimal digits\<close>
  "is_digits_1_2 s = (1 \<le> length s \<and> length s \<le> 2 \<and> list_all isDigit s)"

definition is_canonical_date :: "string \<Rightarrow> bool" where
  \<comment> \<open>the literal form \<open>YYYY-MM-DD\<close>\<close>
  "is_canonical_date s =
     (length s = 10 \<and> list_all isDigit (take 4 s) \<and> s ! 4 = CHR ''-'' \<and>
      list_all isDigit (take 2 (drop 5 s)) \<and> s ! 7 = CHR ''-'' \<and> list_all isDigit (drop 8 s))"

definition accepted_from :: "string list \<Rightarrow> string list \<Rightarrow> parsed_transaction \<Rightarrow> bool" where
  \<comment> \<open>the record \<open>t\<close> is what one iteration of the loop of \<open>parseCSV\<close> pushes for the fields \<open>vs\<close>\<close>
  "accepted_from hs vs t =
     (\<not> length vs < 3 \<and> forEach_headers hs 0 vs empty_transaction = Inr t \<and>
      truthy (p_date t) \<and> truthy (p_category t))"

section \<open>Upload handler\<close>

text \<open>
  The rows that \<open>handleFileSelect\<close> prepares for the bulk insert. \<open>x || d\<close> on a string
  property takes \<open>d\<close> when the property is \<open>undefined\<close> or empty, on a number property when
  it is \<open>undefined\<close>, \<open>NaN\<close> or \<open>0\<close>.
\<close>

record insert_row =
  r_book_id :: string
  r_user_id :: string
  r_date :: "string option"
  r_category :: string
  r_subcategory :: "string option"
  r_income :: js_number
  r_expense :: js_number
  r_note :: "string option"
  r_paid_from :: "string option"
  r_labels :: "string list option"

definition or_string :: "string option \<Rightarrow> string \<Rightarrow> string" where
  "or_string x d = (case x of None \<Rightarrow> d | Some s \<Rightarrow> if s = [] then d else s)"

definition or_null :: "string option \<Rightarrow> string option" where
  "or_null x = (case x of None \<Rightarrow> None | Some s \<Rightarrow> if s = [] then None else Some s)"

definition or_zero_opt :: "js_number option \<Rightarrow> js_number" where
  "or_zero_opt x = (case x of None \<Rightarrow> Fin 0 | Some n \<Rightarrow> or_zero n)"

definition to_insert :: "string \<Rightarrow> string \<Rightarrow> parsed_transaction \<Rightarrow> insert_row" where
  "to_insert bookId userId t =
     \<lparr>r_book_id = bookId, r_user_id = userId, r_date = p_date t,
      r_category = or_string (p_category t) ''Uncategorized'',
      r_subcategory = or_null (p_subcategory t),
      r_income = or_zero_opt (p_income t),
      r_expense = or_zero_opt (p_expense t),
      r_note = or_null (p_note t),
      r_paid_from = or_null (p_paid_from t),
      r_labels = None\<rparr>"

text \<open>
  The handler is modelled by the sequence of effects it performs. A promise either fulfils
  or rejects with an error whose \<open>message\<close> is the string carried (empty when the error has
  none); the answer of the storage service to an insert is a parameter: \<open>None\<close> for
  success, \<open>Some message\<close> for the \<open>error\<close> it returns.
\<close>

datatype 'a promise = Fulfilled 'a | Rejected string

record csv_file =
  file_name :: string
  file_text :: "string promise"

datatype event =
    SetIsUploading bool
  | ToastError string
  | ToastSuccess nat \<comment> \<open>\<open>Successfully uploaded n transactions\<close>\<close>
  | Insert "insert_row list" \<comment> \<open>\<open>supabase.from("transactions").insert(rows)\<close>\<close>
  | OnUploadComplete
  | ClearFileInput

definition message_or_default :: "string \<Rightarrow> string" where
  \<comment> \<open>\<open>error.message || "Failed to upload CSV"\<close>\<close>
  "message_or_default msg = (if msg = [] then ''Failed to upload CSV'' else msg)"

definition js_error_message :: "js_error \<Rightarrow> string" where
  \<comment> \<open>the engine's message text is not modelled, only that there is one\<close>
  "js_error_message e = (case e of TypeError \<Rightarrow> ''TypeError'' | OutsideModel \<Rightarrow> ''OutsideModel'')"

definition handleFileSelect ::
  "string \<Rightarrow> string \<Rightarrow> bool \<Rightarrow> (insert_row list \<Rightarrow> string option) \<Rightarrow> csv_file option \<Rightarrow> event list" where
  "handleFileSelect bookId userId inputMounted supabase_insert selected =
     (case selected of
        None \<Rightarrow> []
      | Some file \<Rightarrow>
          if \<not> endsWith (file_name file) ''.csv'' then [ToastError ''Please upload a CSV file'']
          else
            [SetIsUploading True] @
            (case file_text file of
               Rejected msg \<Rightarrow> [ToastError (message_or_default msg)]
             | Fulfilled text \<Rightarrow>
                 (case parseCSV text of
                    Inl e \<Rightarrow> [ToastError (message_or_default (js_error_message e))]
                  | Inr parsedTransactions \<Rightarrow>
                      if length parsedTransactions = 0
                      then [ToastError ''No valid transactions found in CSV'']
                      else
                        let transactionsToInsert = map (to_insert bookId userId) parsedTransactions
                        in Insert transactionsToInsert #
                           (case supabase_insert transactionsToInsert of
                              Some msg \<Rightarrow> [ToastError (message_or_default msg)]
                            | None \<Rightarrow>
                                [ToastSuccess (length parsedTransactions), OnUploadComplete] @
                                (if inputMounted then [ClearFileInput] else []))))
            @ [SetIsUploading False])"

text \<open>
  The state the effects act on: the component's \<open>isUploading\<close> flag and the rows of the
  transactions table. An insert adds its rows when the service accepts it and nothing
  otherwise; toasts and callbacks leave both untouched.
\<close>

record app_state =
  isUploading :: bool
  table_rows :: "insert_row list"

fun apply_event :: "(insert_row list \<Rightarrow> string option) \<Rightarrow> app_state \<Rightarrow> event \<Rightarrow> app_state" where
  "apply_event supabase_insert st (SetIsUploading b) = st\<lparr>isUploading := b\<rparr>"
| "apply_event supabase_insert st (Insert rows) =
     (case supabase_insert rows of
        None \<Rightarrow> st\<lparr>table_rows := table_rows st @ rows\<rparr>
      | Some msg \<Rightarrow> st)"
| "apply_event supabase_insert st (ToastError msg) = st"
| "apply_event supabase_insert st (ToastSuccess n) = st"
| "apply_event supabase_insert st OnUploadComplete = st"
| "apply_event supabase_insert st ClearFileInput = st"

definition run_events :: "(insert_row list \<Rightarrow> string option) \<Rightarrow> app_state \<Rightarrow> event list \<Rightarrow> app_state" where
  "run_events supabase_insert st evs = foldl (apply_event supabase_insert) st evs"

definition is_insert :: "event \<Rightarrow> bool" where
  "is_insert e = (case e of Insert rows \<Rightarrow> True | _ \<Rightarrow> False)"

definition is_toast_error :: "event \<Rightarrow> bool" where
  "is_toast_error e = (case e of ToastError msg \<Rightarrow> True | _ \<Rightarrow> False)"

definition amount_rule :: "nat option \<Rightarrow> string list \<Rightarrow> js_number option \<Rightarrow> js_number \<Rightarrow> bool" where
  \<comment> \<open>how an amount of a parsed record follows from the row's fields \<open>vs\<close>: \<open>column\<close> is the
      column that sets it, \<open>amount\<close> the property of the record, \<open>inserted\<close> the amount of the
      row prepared for insertion. With a column, the amount is \<open>parseNumber\<close> of the field,
      and that is \<open>0\<close> when the field is absent, empty, or \<open>parseFloat\<close> finds no number at
      its start; with no column the property is unset (\<open>undefined\<close>) and only the inserted
      amount is \<open>0\<close>.\<close>
  "amount_rule column vs amount inserted =
     (case column of
        None \<Rightarrow> amount = None \<and> inserted = Fin 0
      | Some k \<Rightarrow>
          amount = Some (parseNumber (value_at vs k)) \<and>
          ((length vs \<le> k \<or> vs ! k = [] \<or> parseFloat (remove_commas (vs ! k)) = NaN) \<longrightarrow>
             amount = Some (Fin 0)))"

definition amount_negative :: "js_number option \<Rightarrow> bool" where
  "amount_negative amount = (case amount of None \<Rightarrow> False | Some x \<Rightarrow> is_negative x)"

definition sign_rule :: "nat option \<Rightarrow> string list \<Rightarrow> js_number option \<Rightarrow> js_number \<Rightarrow> bool" where
  \<comment> \<open>an amount (of the parsed record, or of the row prepared for insertion) is negative
      only when the row has a field in the amount's column and that field, without its
      commas and leading white space, begins with a minus sign\<close>
  "sign_rule column vs amount inserted =
     (amount_negative amount \<or> is_negative inserted \<longrightarrow>
        (case column of
           None \<Rightarrow> False
         | Some k \<Rightarrow> k < length vs \<and> startsWith (trimStart (remove_commas (vs ! k))) ''-''))"

section \<open>Charts\<close>

text \<open>
  The fields of \<open>Transaction\<close> (\<open>Dashboard.tsx\<close>) that the chart components read. Amounts
  come from \<open>DECIMAL(12, 2)\<close> columns and are modelled by their exact values, and sums are
  exact where the code adds doubles: a sum of the code can differ from the sum here in its
  last binary digits (\<open>0.1 + 0.2\<close>), which \<open>toFixed(2)\<close> removes where the code applies it.
  Which groups there are and in which order they are listed does not depend on the sums.
\<close>

record Transaction =
  date :: string
  category :: string
  subcategory :: "string option"
  income :: rat
  expense :: rat

record chart_entry =
  name :: string
  "value" :: rat

subsection \<open>Sorting\<close>

text \<open>
  \<open>Array.prototype.sort\<close> is stable, and a comparator result that is \<open>NaN\<close> counts as
  \<open>+0\<close>. For a consistent comparator the result is the one stable sorted arrangement,
  which insertion from the right computes: \<open>x\<close> goes before the first \<open>y\<close> with
  \<open>comparefn(x, y) \<le> 0\<close>.
\<close>

definition not_after :: "js_number \<Rightarrow> bool" where
  \<comment> \<open>the comparator's result does not put its first argument after its second\<close>
  "not_after v = (case v of NaN \<Rightarrow> True | Fin r \<Rightarrow> r \<le> 0 | PosInfinity \<Rightarrow> False | NegInfinity \<Rightarrow> True)"

fun js_insert :: "('a \<Rightarrow> 'a \<Rightarrow> js_number) \<Rightarrow> 'a \<Rightarrow> 'a list \<Rightarrow> 'a list" where
  "js_insert comparefn x [] = [x]"
| "js_insert comparefn x (y # ys) =
     (if not_after (comparefn x y) then x # y # ys else y # js_insert comparefn x ys)"

fun js_sort :: "('a \<Rightarrow> 'a \<Rightarrow> js_number) \<Rightarrow> 'a list \<Rightarrow> 'a list" where
  "js_sort comparefn [] = []"
| "js_sort comparefn (x # xs) = js_insert comparefn x (js_sort comparefn xs)"

definition js_minus :: "js_number \<Rightarrow> js_number \<Rightarrow> js_number" where
  "js_minus a b =
     (case (a, b) of
        (NaN, _) \<Rightarrow> NaN
      | (_, NaN) \<Rightarrow> NaN
      | (Fin x, Fin y) \<Rightarrow> Fin (x - y)
      | (Fin x, PosInfinity) \<Rightarrow> NegInfinity
      | (Fin x, NegInfinity) \<Rightarrow> PosInfinity
      | (PosInfinity, PosInfinity) \<Rightarrow> NaN
      | (PosInfinity, _) \<Rightarrow> PosInfinity
      | (NegInfinity, NegInfinity) \<Rightarrow> NaN
      | (NegInfinity, _) \<Rightarrow> NegInfinity)"

definition by_value_desc :: "chart_entry \<Rightarrow> chart_entry \<Rightarrow> js_number" where
  \<comment> \<open>\<open>(a, b) => b.value - a.value\<close>\<close>
  "by_value_desc a b = Fin (value b - value a)"

subsection \<open>Grouping in an array (the chart section without time navigation)\<close>

fun add_to_entries :: "chart_entry list \<Rightarrow> string \<Rightarrow> rat \<Rightarrow> chart_entry list" where
  \<comment> \<open>\<open>acc.find(item => item.name === n)\<close>, then \<open>existing.value += e\<close> or \<open>acc.push(...)\<close>\<close>
  "add_to_entries [] n e = [\<lparr>name = n, value = e\<rparr>]"
| "add_to_entries (item # items) n e =
     (if name item = n then item\<lparr>value := value item + e\<rparr> # items
      else item # add_to_entries items n e)"

definition categoryData_reduce :: "Transaction list \<Rightarrow> chart_entry list" where
  "categoryData_reduce transactions =
     foldl (\<lambda>acc t. if expense t > 0 then add_to_entries acc (category t) (expense t) else acc)
       [] transactions"

definition topExpenses :: "chart_entry list \<Rightarrow> chart_entry list" where
  \<comment> \<open>\<open>[...categoryData].sort((a, b) => b.value - a.value).slice(0, 5)\<close>\<close>
  "topExpenses categoryData_list = take 5 (js_sort by_value_desc categoryData_list)"

subsection \<open>Grouping in a record object (the chart section with time navigation)\<close>

text \<open>
  \<open>const grouped: Record<string, number> = {}\<close> is an ordinary object. Its own properties
  are kept in creation order; reading a key that is not an own property finds the
  properties of \<open>Object.prototype\<close>; assigning a primitive to \<open>__proto__\<close> is ignored by that
  accessor; \<open>Object.entries\<close> lists the keys that are array indices first, in ascending
  numeric order, and then the other keys in creation order.

  A property value is a number, or a string that \<open>+\<close> produced by concatenation when one
  operand was not a number (the text of such a string is not modelled; it is not empty).
\<close>

datatype js_value = NumberV rat | StringV

datatype 'v property = Undefined | Own 'v | Inherited

type_synonym 'v js_object = "(string \<times> 'v) list"

definition object_prototype_keys :: "string list" where
  "object_prototype_keys =
     [''constructor'', ''__defineGetter__'', ''__defineSetter__'', ''hasOwnProperty'',
      ''__lookupGetter__'', ''__lookupSetter__'', ''isPrototypeOf'', ''propertyIsEnumerable'',
      ''toString'', ''valueOf'', ''__proto__'', ''toLocaleString'']"

definition get_property :: "'v js_object \<Rightarrow> string \<Rightarrow> 'v property" where
  "get_property obj k =
     (case map_of obj k of
        Some v \<Rightarrow> Own v
      | None \<Rightarrow> if k \<in> set object_prototype_keys then Inherited else Undefined)"

definition set_primitive :: "'v js_object \<Rightarrow> string \<Rightarrow> 'v \<Rightarrow> 'v js_object" where
  \<comment> \<open>\<open>obj[k] = v\<close> for a number or a string \<open>v\<close>\<close>
  "set_primitive obj k v = (if k = ''__proto__'' then obj else AList.update k v obj)"

definition isArrayIndex :: "string \<Rightarrow> bool" where
  \<comment> \<open>the canonical decimal text of an integer below \<open>2^32 - 1 = 4294967295\<close>\<close>
  "isArrayIndex k =
     (k \<noteq> [] \<and> list_all isDigit k \<and> (k = ''0'' \<or> hd k \<noteq> CHR ''0'') \<and>
      int (decimal_value k) < 4294967295)"

definition Object_entries :: "'v js_object \<Rightarrow> (string \<times> 'v) list" where
  "Object_entries obj =
     sort_key (\<lambda>kv. decimal_value (fst kv)) (filter (\<lambda>kv. isArrayIndex (fst kv)) obj) @
     filter (\<lambda>kv. \<not> isArrayIndex (fst kv)) obj"

definition toFixed2 :: "rat \<Rightarrow> rat" where
  \<comment> \<open>\<open>Number(x.toFixed(2))\<close>: the nearest multiple of \<open>1/100\<close>, the larger in magnitude of two
      nearest; from \<open>10^21\<close> on \<open>toFixed\<close> prints the number itself\<close>
  "toFixed2 x =
     (if 10 ^ 21 \<le> \<bar>x\<bar> then x
      else (if x < 0 then - 1 else 1) * of_int \<lfloor>100 * \<bar>x\<bar> + 1 / 2\<rfloor> / 100)"

definition plus_expense :: "js_value property \<Rightarrow> rat \<Rightarrow> js_value" where
  \<comment> \<open>\<open>(p || 0) + e\<close>: an inherited property is a function or an object, which is truthy and
      makes \<open>+\<close> concatenate strings\<close>
  "plus_expense p e =
     (case p of
        Undefined \<Rightarrow> NumberV (0 + e)
      | Own (NumberV v) \<Rightarrow> NumberV (v + e)
      | Own StringV \<Rightarrow> StringV
      | Inherited \<Rightarrow> StringV)"

definition add_expense :: "js_value js_object \<Rightarrow> string \<Rightarrow> rat \<Rightarrow> js_value js_object" where
  \<comment> \<open>\<open>obj[k] = (obj[k] || 0) + e\<close>\<close>
  "add_expense obj k e = set_primitive obj k (plus_expense (get_property obj k) e)"

definition group_step :: "js_value js_object \<Rightarrow> Transaction \<Rightarrow> js_value js_object" where
  "group_step grouped t =
     (if expense t > 0 then add_expense grouped (category t) (expense t) else grouped)"

fun map_result :: "('a \<Rightarrow> js_error + 'b) \<Rightarrow> 'a list \<Rightarrow> js_error + 'b list" where
  \<comment> \<open>\<open>xs.map(f)\<close> for a callback that may throw\<close>
  "map_result f [] = Inr []"
| "map_result f (x # xs) =
     (case f x of
        Inl e \<Rightarrow> Inl e
      | Inr y \<Rightarrow> (case map_result f xs of Inl e \<Rightarrow> Inl e | Inr ys \<Rightarrow> Inr (y # ys)))"

definition to_chart_entry :: "string \<times> js_value \<Rightarrow> js_error + chart_entry" where
  \<comment> \<open>\<open>([name, value]) => ({ name, value: Number(value.toFixed(2)) })\<close>; a string has no
      \<open>toFixed\<close>\<close>
  "to_chart_entry kv =
     (case snd kv of
        NumberV x \<Rightarrow> Inr \<lparr>name = fst kv, value = toFixed2 x\<rparr>
      | StringV \<Rightarrow> Inl TypeError)"

definition categoryData :: "Transaction list \<Rightarrow> js_error + chart_entry list" where
  "categoryData filteredTransactions =
     (let grouped = foldl group_step [] filteredTransactions
      in case map_result to_chart_entry (Object_entries grouped) of
           Inl e \<Rightarrow> Inl e
         | Inr entries \<Rightarrow> Inr (js_sort by_value_desc entries))"

definition bar_chart_data :: "chart_entry list \<Rightarrow> chart_entry list" where
  \<comment> \<open>\<open>currentData.slice(0, 10)\<close>\<close>
  "bar_chart_data currentData = take 10 currentData"

subsection \<open>Monthly trend\<close>

text \<open>
  Dates. \<open>t.date.split('-').map(Number)\<close>, \<open>new Date(year, month - 1, day)\<close> and date-fns
  \<open>format(d, "MMM yyyy")\<close> are evaluated for the dates the store returns: three groups of
  digits that name a day of the calendar. \<open>new Date\<close> moves the years \<open>0..99\<close> to
  \<open>1900..1999\<close>. Every other argument (a group that is not digits, a month or day out of
  range, which \<open>Date\<close> would roll over) is outside the model.
\<close>

datatype time_period = Weekly | Monthly | Yearly

record js_date =
  fullYear :: nat
  monthIndex :: nat \<comment> \<open>\<open>0..11\<close>\<close>
  dayOfMonth :: nat

definition is_number_text :: "string \<Rightarrow> bool" where
  "is_number_text s = (s \<noteq> [] \<and> list_all isDigit s)"

definition date_numbers :: "string \<Rightarrow> js_error + (nat \<times> nat \<times> nat)" where
  \<comment> \<open>\<open>const [year, month, day] = t.date.split('-').map(Number)\<close>\<close>
  "date_numbers d =
     (case split_on (\<lambda>c. c = CHR ''-'') d of
        year # month # day # _ \<Rightarrow>
          if is_number_text year \<and> is_number_text month \<and> is_number_text day
          then Inr (decimal_value year, decimal_value month, decimal_value day)
          else Inl OutsideModel
      | _ \<Rightarrow> Inl OutsideModel)"

definition days_in_month :: "nat \<Rightarrow> nat \<Rightarrow> nat" where
  "days_in_month y m =
     (if m = 1 then (if y mod 4 = 0 \<and> (y mod 100 \<noteq> 0 \<or> y mod 400 = 0) then 29 else 28)
      else if m \<in> {3, 5, 8, 10} then 30 else 31)"

definition new_Date :: "nat \<Rightarrow> int \<Rightarrow> nat \<Rightarrow> js_error + js_date" where
  "new_Date year month_index day =
     (let y = (if year \<le> 99 then 1900 + year else year)
      in if 0 \<le> month_index \<and> month_index \<le> 11 \<and> 1 \<le> day \<and> day \<le> days_in_month y (nat month_index)
         then Inr \<lparr>fullYear = y, monthIndex = nat month_index, dayOfMonth = day\<rparr>
         else Inl OutsideModel)"

definition month_names :: "string list" where
  "month_names =
     [''Jan'', ''Feb'', ''Mar'', ''Apr'', ''May'', ''Jun'', ''Jul'', ''Aug'', ''Sep'', ''Oct'', ''Nov'', ''Dec'']"

fun show_nat :: "nat \<Rightarrow> string" where
  "show_nat n =
     (if n < 10 then [char_of (48 + n)] else show_nat (n div 10) @ [char_of (48 + n mod 10)])"

definition addLeadingZeros4 :: "string \<Rightarrow> string" where
  "addLeadingZeros4 s = replicate (4 - length s) (CHR ''0'') @ s"

definition format_MMM_yyyy :: "js_date \<Rightarrow> string" where
  "format_MMM_yyyy d = month_names ! monthIndex d @ '' '' @ addLeadingZeros4 (show_nat (fullYear d))"

definition monthKey_of :: "string \<Rightarrow> js_error + string" where
  "monthKey_of d =
     (case date_numbers d of
        Inl e \<Rightarrow> Inl e
      | Inr (year, month, day) \<Rightarrow>
          (case new_Date year (int month - 1) day of
             Inl e \<Rightarrow> Inl e
           | Inr transactionDate \<Rightarrow> Inr (format_MMM_yyyy transactionDate)))"

definition parseISO_getTime :: "string \<Rightarrow> js_error + js_number" where
  \<comment> \<open>\<open>parseISO(argument).getTime()\<close> of date-fns. \<open>parseISO\<close> splits its argument at
      \<open>/[T ]/\<close> and answers \<open>Invalid Date\<close>, whose time is \<open>NaN\<close>, when there are more than
      two pieces; arguments with at most two pieces are outside the model.\<close>
  "parseISO_getTime argument =
     (if 2 < length (split_on (\<lambda>c. c = CHR ''T'' \<or> c = CHR '' '') argument)
      then Inr NaN else Inl OutsideModel)"

record month_bucket =
  month :: string
  total :: rat
  categories :: "js_value js_object"
  sortDate :: js_number \<comment> \<open>the time value of the \<open>Date\<close>\<close>

definition monthly_step ::
  "(js_value js_object) js_object \<Rightarrow> Transaction \<Rightarrow> js_error + (js_value js_object) js_object" where
  \<comment> \<open>the body of \<open>transactions.forEach\<close>; an inherited property as a month's record is
      outside the model (no month key is a property of \<open>Object.prototype\<close>)\<close>
  "monthly_step monthlyExpenses t =
     (if expense t > 0
      then (case monthKey_of (date t) of
              Inl e \<Rightarrow> Inl e
            | Inr monthKey \<Rightarrow>
                (case get_property monthlyExpenses monthKey of
                   Undefined \<Rightarrow>
                     Inr (AList.update monthKey (add_expense [] (category t) (expense t)) monthlyExpenses)
                 | Own cats \<Rightarrow>
                     Inr (AList.update monthKey (add_expense cats (category t) (expense t)) monthlyExpenses)
                 | Inherited \<Rightarrow> Inl OutsideModel))
      else Inr monthlyExpenses)"

fun forEach_result :: "('s \<Rightarrow> 'a \<Rightarrow> js_error + 's) \<Rightarrow> 'a list \<Rightarrow> 's \<Rightarrow> js_error + 's" where
  "forEach_result f [] s = Inr s"
| "forEach_result f (x # xs) s =
     (case f s x of Inl e \<Rightarrow> Inl e | Inr s' \<Rightarrow> forEach_result f xs s')"

definition js_plus :: "js_value \<Rightarrow> js_value \<Rightarrow> js_value" where
  \<comment> \<open>\<open>sum + val\<close>\<close>
  "js_plus a b = (case (a, b) of (NumberV x, NumberV y) \<Rightarrow> NumberV (x + y) | _ \<Rightarrow> StringV)"

definition sum_values :: "js_value js_object \<Rightarrow> js_value" where
  \<comment> \<open>\<open>Object.values(categories).reduce((sum, val) => sum + val, 0)\<close>\<close>
  "sum_values cats = foldl js_plus (NumberV 0) (map snd (Object_entries cats))"

definition to_bucket :: "string \<times> js_value js_object \<Rightarrow> js_error + month_bucket" where
  "to_bucket kv =
     (case sum_values (snd kv) of
        StringV \<Rightarrow> Inl TypeError
      | NumberV x \<Rightarrow>
          (case parseISO_getTime (fst kv @ '' 01'') of
             Inl e \<Rightarrow> Inl e
           | Inr time \<Rightarrow>
               Inr \<lparr>month = fst kv, total = toFixed2 x, categories = snd kv, sortDate = time\<rparr>))"

definition by_sortDate :: "month_bucket \<Rightarrow> month_bucket \<Rightarrow> js_number" where
  \<comment> \<open>\<open>(a, b) => a.sortDate.getTime() - b.sortDate.getTime()\<close>\<close>
  "by_sortDate a b = js_minus (sortDate a) (sortDate b)"

definition monthlyData :: "time_period \<Rightarrow> Transaction list \<Rightarrow> js_error + month_bucket list" where
  "monthlyData timePeriod transactions =
     (if timePeriod \<noteq> Monthly then Inr []
      else (case forEach_result monthly_step transactions [] of
              Inl e \<Rightarrow> Inl e
            | Inr monthlyExpenses \<Rightarrow>
                (case map_result to_bucket (Object_entries monthlyExpenses) of
                   Inl e \<Rightarrow> Inl e
                 | Inr buckets \<Rightarrow> Inr (js_sort by_sortDate buckets))))"

text \<open>Vocabulary of the specification for the aggregations.\<close>

definition first_occurrences :: "'a list \<Rightarrow> 'a list" where
  \<comment> \<open>the distinct elements in the order in which they are first met\<close>
  "first_occurrences xs = rev (remdups (rev xs))"

definition with_expense :: "Transaction list \<Rightarrow> Transaction list" where
  "with_expense transactions = filter (\<lambda>t. expense t > 0) transactions"

definition expense_of :: "(Transaction \<Rightarrow> bool) \<Rightarrow> Transaction list \<Rightarrow> rat" where
  \<comment> \<open>the summed expense of the transactions with positive expense that satisfy \<open>P\<close>\<close>
  "expense_of P transactions = sum_list (map expense (filter P (with_expense transactions)))"

definition tx :: "string \<Rightarrow> string \<Rightarrow> rat \<Rightarrow> Transaction" where
  \<comment> \<open>a transaction with a date, a category and an expense, and nothing else\<close>
  "tx d c e = \<lparr>date = d, category = c, subcategory = None, income = 0, expense = e\<rparr>"

definition year_of :: "string \<Rightarrow> nat" where
  "year_of d = decimal_value (take 4 d)"

definition month_of :: "string \<Rightarrow> nat" where
  "month_of d = decimal_value (take 2 (drop 5 d))"

definition day_of :: "string \<Rightarrow> nat" where
  "day_of d = decimal_value (drop 8 d)"

definition is_store_date :: "string \<Rightarrow> bool" where
  \<comment> \<open>a day of the calendar written \<open>YYYY-MM-DD\<close>, as the \<open>DATE\<close> column prints it, of a year
      from 100 on\<close>
  "is_store_date d =
     (is_canonical_date d \<and> 100 \<le> year_of d \<and> 1 \<le> month_of d \<and> month_of d \<le> 12 \<and>
      1 \<le> day_of d \<and> day_of d \<le> days_in_month (year_of d) (month_of d - 1))"

definition month_label :: "nat \<Rightarrow> nat \<Rightarrow> string" where
  \<comment> \<open>the label \<open>Mon YYYY\<close> of the month \<open>m\<close> (\<open>1..12\<close>) of the year \<open>y\<close>\<close>
  "month_label y m = month_names ! (m - 1) @ '' '' @ addLeadingZeros4 (show_nat y)"

definition calendar_month :: "string \<Rightarrow> nat \<times> nat" where
  "calendar_month d = (year_of d, month_of d)"

definition month_label_of :: "string \<Rightarrow> string" where
  "month_label_of d = month_label (year_of d) (month_of d)"

definition the_number :: "js_value \<Rightarrow> rat" where
  "the_number v = (case v of NumberV x \<Rightarrow> x | StringV \<Rightarrow> 0)"

definition all_numbers :: "js_value js_object \<Rightarrow> bool" where
  "all_numbers obj = list_all (\<lambda>kv. snd kv \<noteq> StringV) obj"

definition numbers_sum :: "js_value js_object \<Rightarrow> rat" where
  "numbers_sum obj = sum_list (map (\<lambda>kv. the_number (snd kv)) obj)"

definition bucket_of :: "string \<times> js_value js_object \<Rightarrow> month_bucket" where
  \<comment> \<open>the bucket of a month whose record holds numbers only\<close>
  "bucket_of kv =
     \<lparr>month = fst kv, total = toFixed2 (numbers_sum (snd kv)), categories = snd kv, sortDate = NaN\<rparr>"

definition month_records :: "(js_value js_object) js_object \<Rightarrow> Transaction list \<Rightarrow> bool" where
  \<comment> \<open>what the object \<open>monthlyExpenses\<close> holds after the transactions \<open>seen\<close>: one record per
      month label, in the order in which the labels were first met, whose numbers add up to
      the month's expenses\<close>
  "month_records acc seen =
     (map fst acc = first_occurrences (map (\<lambda>t. month_label_of (date t)) (with_expense seen)) \<and>
      (\<forall>kv\<in>set acc. all_numbers (snd kv) \<and>
          numbers_sum (snd kv) = expense_of (\<lambda>t. month_label_of (date t) = fst kv) seen))"

definition entry_of :: "string \<times> js_value \<Rightarrow> chart_entry" where
  \<comment> \<open>the chart entry of a property that holds a number\<close>
  "entry_of kv = \<lparr>name = fst kv, value = toFixed2 (the_number (snd kv))\<rparr>"

definition entries_order :: "string list \<Rightarrow> string list" where
  \<comment> \<open>the order in which \<open>Object.entries\<close> lists the keys of an object whose properties were
      created in the order \<open>keys\<close>: the array indices first, in ascending numeric order,
      then the other keys in creation order\<close>
  "entries_order keys =
     sort_key decimal_value (filter isArrayIndex keys) @ filter (\<lambda>k. \<not> isArrayIndex k) keys"

section \<open>Properties of the tokenizer\<close>

lemma last_dropWhile_ne: "dropWhile P xs \<noteq> [] \<Longrightarrow> last (dropWhile P xs) = last xs"
  by (induction xs) (auto split: if_splits)

lemma trim_is_trimmed: "is_trimmed (trim s)"
proof (cases "trim s = []")
  case True
  then show ?thesis by (simp add: is_trimmed_def)
next
  case False
  define a where "a = dropWhile isWhiteSpace s"
  define b where "b = dropWhile isWhiteSpace (rev a)"
  have t: "trim s = rev b" by (simp add: trim_def a_def b_def)
  with False have b: "b \<noteq> []" by simp
  then have hb: "\<not> isWhiteSpace (hd b)" unfolding b_def by (rule hd_dropWhile)
  from b have ra: "rev a \<noteq> []" unfolding b_def by (cases "rev a") auto
  then have a: "a \<noteq> []" by simp
  then have ha: "\<not> isWhiteSpace (hd a)" unfolding a_def by (rule hd_dropWhile)
  have "last b = last (rev a)" using b unfolding b_def by (rule last_dropWhile_ne)
  also have "\<dots> = hd a" using a by (simp add: last_rev)
  finally have lb: "last b = hd a" .
  have "hd (trim s) = last b" using b t by (simp add: hd_rev)
  moreover have "last (trim s) = hd b" using b t by (simp add: last_rev)
  ultimately show ?thesis using ha hb lb by (simp add: is_trimmed_def)
qed

lemma set_dropWhile_subset: "set (dropWhile P xs) \<subseteq> set xs"
  by (auto dest: set_dropWhileD)

lemma trim_subset: "set (trim s) \<subseteq> set s"
proof -
  have "set (trim s) \<subseteq> set (dropWhile isWhiteSpace s)"
    using set_dropWhile_subset [of isWhiteSpace "rev (dropWhile isWhiteSpace s)"]
    by (simp add: trim_def)
  also have "\<dots> \<subseteq> set s" by (rule set_dropWhile_subset)
  finally show ?thesis .
qed

lemma parseCSVLine_loop_fields:
  assumes "\<forall>f\<in>set result. is_trimmed f \<and> CHR 0x22 \<notin> set f" and "CHR 0x22 \<notin> set current"
  shows "\<forall>f\<in>set (parseCSVLine_loop line result current inQuotes). is_trimmed f \<and> CHR 0x22 \<notin> set f"
  using assms
proof (induction line result current inQuotes rule: parseCSVLine_loop.induct)
  case (1 result current inQuotes)
  have "CHR 0x22 \<notin> set (trim current)" using trim_subset [of current] "1.prems"(2) by blast
  then show ?case using "1.prems"(1) by (simp add: trim_is_trimmed)
next
  case (2 c cs result current inQuotes)
  have tc: "is_trimmed (trim current) \<and> CHR 0x22 \<notin> set (trim current)"
    using trim_subset [of current] "2.prems"(2) by (auto simp: trim_is_trimmed)
  show ?case
  proof (cases "c = CHR 0x22")
    case True
    then show ?thesis using 2(1) 2(4) 2(5) by simp
  next
    case nq: False
    show ?thesis
    proof (cases "c = CHR '','' \<and> \<not> inQuotes")
      case True
      then show ?thesis using nq 2(2) [OF nq True] "2.prems" tc by simp
    next
      case False
      then have "parseCSVLine_loop (c # cs) result current inQuotes =
                 parseCSVLine_loop cs result (current @ [c]) inQuotes"
        using nq by auto
      then show ?thesis using nq 2(3) [OF nq False] "2.prems" by simp
    qed
  qed
qed

lemma parseCSVLine_loop_length:
  "length (parseCSVLine_loop line result current inQuotes) =
     length result + 1 + commas_from line inQuotes"
  by (induction line result current inQuotes rule: parseCSVLine_loop.induct) simp_all


lemma commas_from_count:
  "commas_from line q =
     length (filter (\<lambda>i. line ! i = CHR '','' \<and>
                          (even (length (filter (\<lambda>c. c = CHR 0x22) (take i line))) \<noteq> q))
               [0..<length line])"
proof (induction line arbitrary: q)
  case Nil
  then show ?case by simp
next
  case (Cons c cs)
  have upt: "[0..<length (c # cs)] = 0 # map Suc [0..<length cs]"
    by (simp add: upt_conv_Cons map_Suc_upt del: upt_Suc)
  show ?case
    unfolding upt
    by (simp add: Cons.IH filter_map o_def del: upt_Suc) 
qed

lemma parseCSVLine_length: "length (parseCSVLine line) = 1 + commas_outside_quotes line"
  by (simp add: parseCSVLine_def parseCSVLine_loop_length commas_from_count commas_outside_quotes_def)


lemma trim_trimmed: "is_trimmed t \<Longrightarrow> trim t = t"
proof (cases "t = []")
  case True
  then show ?thesis by (simp add: trim_def)
next
  case False
  assume "is_trimmed t"
  with False have h: "\<not> isWhiteSpace (hd t)" and l: "\<not> isWhiteSpace (last t)"
    by (simp_all add: is_trimmed_def)
  from False h have d1: "dropWhile isWhiteSpace t = t" by (cases t) simp_all
  from False l have "\<not> isWhiteSpace (hd (rev t))" by (simp add: hd_rev)
  with False have d2: "dropWhile isWhiteSpace (rev t) = rev t" by (cases "rev t") simp_all
  show ?thesis by (simp add: trim_def d1 d2)
qed

text \<open>
  C10: for every line, \<open>parseCSVLine\<close> returns at least one field, exactly one more than the
  number of commas outside quoted spans; every field has no surrounding white space (trimming
  it again changes nothing) and contains no double quote.
\<close>

theorem parseCSVLine_fields:
  "parseCSVLine line \<noteq> [] \<and>
   length (parseCSVLine line) = 1 + commas_outside_quotes line \<and>
   (\<forall>f\<in>set (parseCSVLine line). is_trimmed f \<and> trim f = f \<and> CHR 0x22 \<notin> set f)"
proof -
  have len: "length (parseCSVLine line) = 1 + commas_outside_quotes line"
    by (rule parseCSVLine_length)
  then have ne: "parseCSVLine line \<noteq> []" by auto
  have f: "\<forall>f\<in>set (parseCSVLine line). is_trimmed f \<and> CHR 0x22 \<notin> set f"
    unfolding parseCSVLine_def by (rule parseCSVLine_loop_fields) simp_all
  with len ne show ?thesis by (simp add: trim_trimmed)
qed

theorem parseCSVLine_fields_witness:
  "parseCSVLine ''a, \"b,c\" ,d'' = [''a'', ''b,c'', ''d''] \<and>
   length (parseCSVLine ''a, \"b,c\" ,d'') = 1 + commas_outside_quotes ''a, \"b,c\" ,d'' \<and>
   commas_outside_quotes ''a, \"b,c\" ,d'' = 2 \<and>
   ''b,c'' \<in> set (parseCSVLine ''a, \"b,c\" ,d'') \<and>
   is_trimmed ''b,c'' \<and> trim ''b,c'' = ''b,c'' \<and> CHR 0x22 \<notin> set ''b,c''"
proof -
  have e: "parseCSVLine ''a, \"b,c\" ,d'' = [''a'', ''b,c'', ''d'']"
    by code_simp
  show ?thesis using parseCSVLine_fields [of "''a, \"b,c\" ,d''"] unfolding e by simp
qed

section \<open>Properties of date normalization\<close>

lemma re_test_item:
  "re_test ((p, lo, hi) # items) s \<longleftrightarrow>
     (\<exists>u v. s = u @ v \<and> lo \<le> length u \<and> length u \<le> hi \<and> list_all p u \<and> re_test items v)"
proof
  assume "re_test ((p, lo, hi) # items) s"
  then obtain k where k: "lo \<le> k" "k \<le> hi" "k \<le> length s" "list_all p (take k s)"
      "re_test items (drop k s)"
    by (auto simp: list_ex_iff re_test.simps(2))
  have "s = take k s @ drop k s" by simp
  moreover have "length (take k s) = k" using k(3) by simp
  ultimately show "\<exists>u v. s = u @ v \<and> lo \<le> length u \<and> length u \<le> hi \<and> list_all p u \<and> re_test items v"
    using k by metis
next
  assume "\<exists>u v. s = u @ v \<and> lo \<le> length u \<and> length u \<le> hi \<and> list_all p u \<and> re_test items v"
  then obtain u v where "s = u @ v" "lo \<le> length u" "length u \<le> hi" "list_all p u" "re_test items v"
    by blast
  then show "re_test ((p, lo, hi) # items) s"
    by (auto simp: list_ex_iff re_test.simps(2) intro!: bexI [of _ "length u"])
qed

declare re_test.simps(2) [simp del]

lemma re_test_one:
  "re_test ((p, 1, 1) # items) s \<longleftrightarrow> (\<exists>a v. s = a # v \<and> p a \<and> re_test items v)"
proof -
  have "(\<exists>u v. s = u @ v \<and> 1 \<le> length u \<and> length u \<le> 1 \<and> list_all p u \<and> re_test items v)
        \<longleftrightarrow> (\<exists>a v. s = a # v \<and> p a \<and> re_test items v)"
  proof
    assume "\<exists>u v. s = u @ v \<and> 1 \<le> length u \<and> length u \<le> 1 \<and> list_all p u \<and> re_test items v"
    then obtain u v where uv: "s = u @ v" "length u = 1" "list_all p u" "re_test items v"
      by (metis le_antisym)
    from uv(2) obtain a where "u = [a]" by (cases u) auto
    with uv show "\<exists>a v. s = a # v \<and> p a \<and> re_test items v" by auto
  next
    assume "\<exists>a v. s = a # v \<and> p a \<and> re_test items v"
    then obtain a v where "s = [a] @ v" "p a" "re_test items v" by auto
    then show "\<exists>u v. s = u @ v \<and> 1 \<le> length u \<and> length u \<le> 1 \<and> list_all p u \<and> re_test items v"
      by (intro exI [of _ "[a]"] exI [of _ v]) simp
  qed
  then show ?thesis by (simp only: re_test_item)
qed

lemma between_4_4: "(4 \<le> n \<and> n \<le> (4::nat) \<and> P) \<longleftrightarrow> (n = 4 \<and> P)"
  by auto

lemma re_digits_1_2_last: "re_test [(isDigit, 1, 2)] s \<longleftrightarrow> is_digits_1_2 s"
  by (simp add: re_test_item is_digits_1_2_def)

lemma re_digits_4_last: "re_test [(isDigit, 4, 4)] s \<longleftrightarrow> is_digits 4 s"
  by (simp add: re_test_item is_digits_def between_4_4)

lemma re_digits_1_2:
  "re_test ((isDigit, 1, 2) # items) s \<longleftrightarrow>
     (\<exists>u v. s = u @ v \<and> is_digits_1_2 u \<and> re_test items v)"
  by (simp add: re_test_item is_digits_1_2_def)

lemma re_digits_4:
  "re_test ((isDigit, 4, 4) # items) s \<longleftrightarrow>
     (\<exists>u v. s = u @ v \<and> is_digits 4 u \<and> re_test items v)"
  by (simp add: re_test_item is_digits_def between_4_4)

lemma re_ymd_iff:
  "re_test re_ymd c \<longleftrightarrow>
     (\<exists>y a m b d. c = y @ a # m @ b # d \<and> is_digits 4 y \<and> isDateSep a \<and> is_digits_1_2 m \<and>
                  isDateSep b \<and> is_digits_1_2 d)"
  (is "?L \<longleftrightarrow> ?R")
proof
  assume ?L
  then obtain y v1 where 1: "c = y @ v1" "is_digits 4 y"
      "re_test [(isDateSep, 1, 1), (isDigit, 1, 2), (isDateSep, 1, 1), (isDigit, 1, 2)] v1"
    unfolding re_ymd_def re_digits_4 by blast
  from 1(3) obtain a v2 where 2: "v1 = a # v2" "isDateSep a"
      "re_test [(isDigit, 1, 2), (isDateSep, 1, 1), (isDigit, 1, 2)] v2"
    unfolding re_test_one by blast
  from 2(3) obtain m v3 where 3: "v2 = m @ v3" "is_digits_1_2 m"
      "re_test [(isDateSep, 1, 1), (isDigit, 1, 2)] v3"
    unfolding re_digits_1_2 by blast
  from 3(3) obtain b d where 4: "v3 = b # d" "isDateSep b" "is_digits_1_2 d"
    unfolding re_test_one re_digits_1_2_last by blast
  have "c = y @ a # m @ b # d" using 1(1) 2(1) 3(1) 4(1) by simp
  with 1(2) 2(2) 3(2) 4(2) 4(3) show ?R by blast
next
  assume ?R
  then obtain y a m b d where r: "c = y @ a # m @ b # d" "is_digits 4 y" "isDateSep a"
      "is_digits_1_2 m" "isDateSep b" "is_digits_1_2 d"
    by blast
  have 4: "re_test [(isDateSep, 1, 1), (isDigit, 1, 2)] (b # d)"
    unfolding re_test_one re_digits_1_2_last using r(5) r(6) by blast
  have 3: "re_test [(isDigit, 1, 2), (isDateSep, 1, 1), (isDigit, 1, 2)] (m @ b # d)"
    unfolding re_digits_1_2 using r(4) 4 by blast
  have 2: "re_test [(isDateSep, 1, 1), (isDigit, 1, 2), (isDateSep, 1, 1), (isDigit, 1, 2)] (a # m @ b # d)"
    unfolding re_test_one using r(3) 3 by blast
  show ?L unfolding re_ymd_def re_digits_4 using r(1) r(2) 2 by blast
qed

lemma re_mdy_iff:
  "re_test re_mdy c \<longleftrightarrow>
     (\<exists>m a d b y. c = m @ a # d @ b # y \<and> is_digits_1_2 m \<and> isDateSep a \<and> is_digits_1_2 d \<and>
                  isDateSep b \<and> is_digits 4 y)"
  (is "?L \<longleftrightarrow> ?R")
proof
  assume ?L
  then obtain m v1 where 1: "c = m @ v1" "is_digits_1_2 m"
      "re_test [(isDateSep, 1, 1), (isDigit, 1, 2), (isDateSep, 1, 1), (isDigit, 4, 4)] v1"
    unfolding re_mdy_def re_digits_1_2 by blast
  from 1(3) obtain a v2 where 2: "v1 = a # v2" "isDateSep a"
      "re_test [(isDigit, 1, 2), (isDateSep, 1, 1), (isDigit, 4, 4)] v2"
    unfolding re_test_one by blast
  from 2(3) obtain d v3 where 3: "v2 = d @ v3" "is_digits_1_2 d"
      "re_test [(isDateSep, 1, 1), (isDigit, 4, 4)] v3"
    unfolding re_digits_1_2 by blast
  from 3(3) obtain b y where 4: "v3 = b # y" "isDateSep b" "is_digits 4 y"
    unfolding re_test_one re_digits_4_last by blast
  have "c = m @ a # d @ b # y" using 1(1) 2(1) 3(1) 4(1) by simp
  with 1(2) 2(2) 3(2) 4(2) 4(3) show ?R by blast
next
  assume ?R
  then obtain m a d b y where r: "c = m @ a # d @ b # y" "is_digits_1_2 m" "isDateSep a"
      "is_digits_1_2 d" "isDateSep b" "is_digits 4 y"
    by blast
  have 4: "re_test [(isDateSep, 1, 1), (isDigit, 4, 4)] (b # y)"
    unfolding re_test_one re_digits_4_last using r(5) r(6) by blast
  have 3: "re_test [(isDigit, 1, 2), (isDateSep, 1, 1), (isDigit, 4, 4)] (d @ b # y)"
    unfolding re_digits_1_2 using r(4) 4 by blast
  have 2: "re_test [(isDateSep, 1, 1), (isDigit, 1, 2), (isDateSep, 1, 1), (isDigit, 4, 4)] (a # d @ b # y)"
    unfolding re_test_one using r(3) 3 by blast
  show ?L unfolding re_mdy_def re_digits_1_2 using r(1) r(2) 2 by blast
qed

lemma split_on_not_Nil: "split_on p s \<noteq> []"
  by (induction s) (auto split: list.splits)

lemma split_on_no_sep: "\<forall>x\<in>set u. \<not> p x \<Longrightarrow> split_on p u = [u]"
  by (induction u) auto

lemma split_on_sep:
  "\<forall>x\<in>set u. \<not> p x \<Longrightarrow> p a \<Longrightarrow> split_on p (u @ a # rest) = u # split_on p rest"
proof (induction u)
  case Nil
  then show ?case using split_on_not_Nil [of p rest] by (auto split: list.splits)
next
  case (Cons x u)
  then show ?case by simp
qed

lemma digit_not_sep: "isDigit c \<Longrightarrow> \<not> isDateSep c"
  by (auto simp: isDigit_def isDateSep_def)

lemma digit_not_space: "isDigit c \<Longrightarrow> \<not> isWhiteSpace c"
  by (auto simp: isDigit_def isWhiteSpace_def)

lemma digits_no_sep: "list_all isDigit u \<Longrightarrow> \<forall>x\<in>set u. \<not> isDateSep x"
  by (auto simp: list_all_iff digit_not_sep)

lemma split_date:
  assumes "list_all isDigit u" "isDateSep a" "list_all isDigit v" "isDateSep b" "list_all isDigit w"
  shows "split_on isDateSep (u @ a # v @ b # w) = [u, v, w]"
  using assms by (simp add: split_on_sep split_on_no_sep digits_no_sep)

lemma trim_Nil: "trim [] = []"
  by (simp add: trim_def)

lemma trim_digits_ends:
  assumes "c \<noteq> []" "isDigit (hd c)" "isDigit (last c)"
  shows "trim c = c"
  using assms by (intro trim_trimmed) (simp add: is_trimmed_def digit_not_space)

lemma trim_trim: "trim (trim s) = trim s"
  by (rule trim_trimmed) (rule trim_is_trimmed)

lemma length_padStart2: "1 \<le> length m \<Longrightarrow> length m \<le> 2 \<Longrightarrow> length (padStart2 m) = 2"
  by (auto simp: padStart2_def)

lemma digits_padStart2: "list_all isDigit m \<Longrightarrow> list_all isDigit (padStart2 m)"
  by (auto simp: padStart2_def list_all_iff isDigit_def)

lemma padStart2_id: "length m = 2 \<Longrightarrow> padStart2 m = m"
  by (simp add: padStart2_def)

lemma dash_sep: "isDateSep (CHR ''-'')"
  by (simp add: isDateSep_def)

lemma canonical_build:
  assumes "is_digits 4 y" "is_digits_1_2 m" "is_digits_1_2 d"
  shows "is_canonical_date (y @ ''-'' @ padStart2 m @ ''-'' @ padStart2 d)"
proof -
  have ly: "length y = 4" and dy: "list_all isDigit y" using assms(1) by (simp_all add: is_digits_def)
  have lm: "length (padStart2 m) = 2" and dm: "list_all isDigit (padStart2 m)"
    using assms(2) by (simp_all add: is_digits_1_2_def length_padStart2 digits_padStart2)
  have ld: "length (padStart2 d) = 2" and dd: "list_all isDigit (padStart2 d)"
    using assms(3) by (simp_all add: is_digits_1_2_def length_padStart2 digits_padStart2)
  show ?thesis
    using ly dy lm dm ld dd by (simp add: is_canonical_date_def nth_append)
qed

lemma ymd_not_mdy:
  assumes "c = y @ a # r1" "is_digits 4 y" "c = m @ b # r2" "is_digits_1_2 m" "isDateSep b"
  shows False
proof -
  have lm: "length m < length y" using assms(2) assms(4) by (simp add: is_digits_def is_digits_1_2_def)
  have "c ! length m = b" using assms(3) by simp
  moreover have "c ! length m = y ! length m" using assms(1) lm by (simp add: nth_append)
  moreover have "isDigit (y ! length m)" using assms(2) lm by (simp add: is_digits_def list_all_length)
  ultimately show False using assms(5) digit_not_sep by auto
qed

lemma mdy_not_ymd: "re_test re_mdy c \<Longrightarrow> \<not> re_test re_ymd c"
  unfolding re_ymd_iff re_mdy_iff using ymd_not_mdy by blast

lemma normalizeDate_ymd:
  assumes "trim s = y @ a # m @ b # d" "is_digits 4 y" "isDateSep a" "is_digits_1_2 m"
    "isDateSep b" "is_digits_1_2 d"
  shows "normalizeDate s = Inr (y @ ''-'' @ padStart2 m @ ''-'' @ padStart2 d)"
proof -
  have ne: "s \<noteq> []" using assms(1) trim_Nil by auto
  have re: "re_test re_ymd (trim s)" unfolding re_ymd_iff using assms by blast
  have sp: "split_on isDateSep (trim s) = [y, m, d]"
    unfolding assms(1) using assms(2-6) by (intro split_date) (simp_all add: is_digits_def is_digits_1_2_def)
  show ?thesis using ne re sp by (simp add: normalizeDate_def)
qed

lemma normalizeDate_mdy:
  assumes "trim s = m @ a # d @ b # y" "is_digits_1_2 m" "isDateSep a" "is_digits_1_2 d"
    "isDateSep b" "is_digits 4 y"
  shows "normalizeDate s = Inr (y @ ''-'' @ padStart2 m @ ''-'' @ padStart2 d)"
proof -
  have ne: "s \<noteq> []" using assms(1) trim_Nil by auto
  have re: "re_test re_mdy (trim s)" unfolding re_mdy_iff using assms by blast
  then have nre: "\<not> re_test re_ymd (trim s)" by (rule mdy_not_ymd)
  have sp: "split_on isDateSep (trim s) = [m, d, y]"
    unfolding assms(1) using assms(2-6) by (intro split_date) (simp_all add: is_digits_def is_digits_1_2_def)
  show ?thesis using ne re nre sp by (simp add: normalizeDate_def)
qed

lemma normalizeDate_other:
  assumes "\<not> re_test re_ymd (trim s)" "\<not> re_test re_mdy (trim s)"
  shows "normalizeDate s = Inr (trim s)"
  using assms by (simp add: normalizeDate_def trim_Nil)

lemma canonical_parts:
  assumes "is_canonical_date r"
  shows "r = take 4 r @ CHR ''-'' # take 2 (drop 5 r) @ CHR ''-'' # drop 8 r"
proof -
  have l: "length r = 10" and a: "r ! 4 = CHR ''-''" and b: "r ! 7 = CHR ''-''"
    using assms by (simp_all add: is_canonical_date_def)
  have d4: "drop 4 r = r ! 4 # drop 5 r"
    using Cons_nth_drop_Suc [of 4 r] l by simp
  have d7: "drop 7 r = r ! 7 # drop 8 r"
    using Cons_nth_drop_Suc [of 7 r] l by simp
  have d5: "drop 5 r = take 2 (drop 5 r) @ drop 7 r"
    using append_take_drop_id [of 2 "drop 5 r"] by simp
  have "r = take 4 r @ drop 4 r" by simp
  also have "\<dots> = take 4 r @ r ! 4 # take 2 (drop 5 r) @ r ! 7 # drop 8 r"
    using d4 d5 d7 by simp
  finally show ?thesis using a b by simp
qed

lemma normalizeDate_canonical:
  assumes "is_canonical_date r"
  shows "normalizeDate r = Inr r"
proof -
  let ?y = "take 4 r" and ?m = "take 2 (drop 5 r)" and ?d = "drop 8 r"
  have l: "length r = 10" using assms by (simp add: is_canonical_date_def)
  have y: "is_digits 4 ?y" and m: "is_digits_1_2 ?m" and d: "is_digits_1_2 ?d"
    using assms by (simp_all add: is_canonical_date_def is_digits_def is_digits_1_2_def)
  have parts: "r = ?y @ CHR ''-'' # ?m @ CHR ''-'' # ?d" using assms by (rule canonical_parts)
  have ne: "r \<noteq> []" using l by auto
  have "hd r = hd ?y" using l by (cases r) simp_all
  moreover have "isDigit (hd ?y)" using y l by (cases r) (simp_all add: is_digits_def)
  ultimately have h: "isDigit (hd r)" by simp
  have "last r = last ?d" using l by (simp add: last_drop)
  moreover have "isDigit (last ?d)"
  proof -
    have "?d \<noteq> []" using l by simp
    then have "last ?d \<in> set ?d" by (rule last_in_set)
    moreover have "\<forall>x\<in>set ?d. isDigit x" using d unfolding is_digits_1_2_def list_all_iff by blast
    ultimately show ?thesis by blast
  qed
  ultimately have la: "isDigit (last r)" by simp
  have t: "trim r = r" using ne h la by (rule trim_digits_ends)
  have "normalizeDate r = Inr (?y @ ''-'' @ padStart2 ?m @ ''-'' @ padStart2 ?d)"
  proof (rule normalizeDate_ymd)
    show "trim r = ?y @ CHR ''-'' # ?m @ CHR ''-'' # ?d" unfolding t by (rule parts)
  qed (rule y m d dash_sep)+
  moreover have "padStart2 ?m = ?m" using l by (simp add: padStart2_id)
  moreover have "padStart2 ?d = ?d" using l by (simp add: padStart2_id)
  ultimately show ?thesis using parts by simp
qed

lemma normalizeDate_idem_aux:
  "\<exists>r. normalizeDate s = Inr r \<and> normalizeDate r = Inr r"
proof (cases "re_test re_ymd (trim s)")
  case True
  then obtain y a m b d where p: "trim s = y @ a # m @ b # d" "is_digits 4 y" "isDateSep a"
      "is_digits_1_2 m" "isDateSep b" "is_digits_1_2 d"
    unfolding re_ymd_iff by blast
  then have "normalizeDate s = Inr (y @ ''-'' @ padStart2 m @ ''-'' @ padStart2 d)"
    by (rule normalizeDate_ymd)
  moreover have "is_canonical_date (y @ ''-'' @ padStart2 m @ ''-'' @ padStart2 d)"
    using p(2) p(4) p(6) by (rule canonical_build)
  ultimately show ?thesis using normalizeDate_canonical by blast
next
  case ny: False
  show ?thesis
  proof (cases "re_test re_mdy (trim s)")
    case True
    then obtain m a d b y where p: "trim s = m @ a # d @ b # y" "is_digits_1_2 m" "isDateSep a"
        "is_digits_1_2 d" "isDateSep b" "is_digits 4 y"
      unfolding re_mdy_iff by blast
    then have "normalizeDate s = Inr (y @ ''-'' @ padStart2 m @ ''-'' @ padStart2 d)"
      by (rule normalizeDate_mdy)
    moreover have "is_canonical_date (y @ ''-'' @ padStart2 m @ ''-'' @ padStart2 d)"
      using p(6) p(2) p(4) by (rule canonical_build)
    ultimately show ?thesis using normalizeDate_canonical by blast
  next
    case False
    with ny have 1: "normalizeDate s = Inr (trim s)" by (rule normalizeDate_other)
    have "normalizeDate (trim s) = Inr (trim (trim s))"
      using ny False by (intro normalizeDate_other) (simp_all add: trim_trim)
    with 1 show ?thesis by (simp add: trim_trim)
  qed
qed

text \<open>
  Called on its own with surrounding white space, \<open>normalizeDate\<close> works on the trimmed
  string: the patterns are tried on it and the fall-through returns it.
\<close>

lemma normalizeDate_trims:
  "\<not> re_test re_ymd '' x '' \<and> \<not> re_test re_mdy '' x '' \<and> normalizeDate '' x '' = Inr ''x''"
  by code_simp

lemma normalizeDate_after_trim:
  "(\<forall>y a m b d.
      trim s = y @ a # m @ b # d \<and> is_digits 4 y \<and> isDateSep a \<and> is_digits_1_2 m \<and>
      isDateSep b \<and> is_digits_1_2 d \<longrightarrow>
      re_test re_ymd (trim s) \<and>
      normalizeDate s = Inr (y @ ''-'' @ padStart2 m @ ''-'' @ padStart2 d) \<and>
      is_canonical_date (y @ ''-'' @ padStart2 m @ ''-'' @ padStart2 d)) \<and>
   (\<forall>m a d b y.
      trim s = m @ a # d @ b # y \<and> is_digits_1_2 m \<and> isDateSep a \<and> is_digits_1_2 d \<and>
      isDateSep b \<and> is_digits 4 y \<longrightarrow>
      re_test re_mdy (trim s) \<and>
      normalizeDate s = Inr (y @ ''-'' @ padStart2 m @ ''-'' @ padStart2 d) \<and>
      is_canonical_date (y @ ''-'' @ padStart2 m @ ''-'' @ padStart2 d)) \<and>
   (\<not> re_test re_ymd (trim s) \<and> \<not> re_test re_mdy (trim s) \<longrightarrow>
      normalizeDate s = Inr (trim s))"
proof (intro conjI allI impI)
  fix y a m b d
  assume h: "trim s = y @ a # m @ b # d \<and> is_digits 4 y \<and> isDateSep a \<and> is_digits_1_2 m \<and>
      isDateSep b \<and> is_digits_1_2 d"
  show "re_test re_ymd (trim s)" unfolding re_ymd_iff using h by blast
  show "normalizeDate s = Inr (y @ ''-'' @ padStart2 m @ ''-'' @ padStart2 d)"
    using h by (intro normalizeDate_ymd) blast+
  show "is_canonical_date (y @ ''-'' @ padStart2 m @ ''-'' @ padStart2 d)"
    using h by (intro canonical_build) blast+
next
  fix m a d b y
  assume h: "trim s = m @ a # d @ b # y \<and> is_digits_1_2 m \<and> isDateSep a \<and> is_digits_1_2 d \<and>
      isDateSep b \<and> is_digits 4 y"
  show "re_test re_mdy (trim s)" unfolding re_mdy_iff using h by blast
  show "normalizeDate s = Inr (y @ ''-'' @ padStart2 m @ ''-'' @ padStart2 d)"
    using h by (intro normalizeDate_mdy) blast+
  show "is_canonical_date (y @ ''-'' @ padStart2 m @ ''-'' @ padStart2 d)"
    using h by (intro canonical_build) blast+
next
  assume "\<not> re_test re_ymd (trim s) \<and> \<not> re_test re_mdy (trim s)"
  then show "normalizeDate s = Inr (trim s)" by (intro normalizeDate_other) blast+
qed

lemma field_is_trimmed: "is_trimmed (value_at (parseCSVLine line) index)"
proof (cases "index < length (parseCSVLine line)")
  case True
  have "\<forall>f\<in>set (parseCSVLine line). is_trimmed f \<and> CHR 0x22 \<notin> set f"
    unfolding parseCSVLine_def by (rule parseCSVLine_loop_fields) simp_all
  moreover have "parseCSVLine line ! index \<in> set (parseCSVLine line)" using True by (rule nth_mem)
  ultimately show ?thesis using True by (simp add: value_at_def)
next
  case False
  then show ?thesis by (simp add: value_at_def is_trimmed_def)
qed

text \<open>
  C2: the strings that \<open>normalizeDate\<close> receives are the fields of \<open>parseCSVLine\<close>, which
  carry no surrounding white space. For every such string: when it has the form
  \<open>YYYY[-/]M[-/]D\<close> or \<open>M[-/]D[-/]YYYY\<close> it is rewritten to the canonical \<open>YYYY-MM-DD\<close> with
  month and day padded to two digits, and when it matches neither pattern it is returned
  unchanged.
\<close>

theorem normalizeDate_patterns:
  "is_trimmed (value_at (parseCSVLine line) index) \<and>
   (is_trimmed s \<longrightarrow>
     (\<forall>y a m b d.
        s = y @ a # m @ b # d \<and> is_digits 4 y \<and> isDateSep a \<and> is_digits_1_2 m \<and>
        isDateSep b \<and> is_digits_1_2 d \<longrightarrow>
        re_test re_ymd s \<and>
        normalizeDate s = Inr (y @ ''-'' @ padStart2 m @ ''-'' @ padStart2 d) \<and>
        is_canonical_date (y @ ''-'' @ padStart2 m @ ''-'' @ padStart2 d)) \<and>
     (\<forall>m a d b y.
        s = m @ a # d @ b # y \<and> is_digits_1_2 m \<and> isDateSep a \<and> is_digits_1_2 d \<and>
        isDateSep b \<and> is_digits 4 y \<longrightarrow>
        re_test re_mdy s \<and>
        normalizeDate s = Inr (y @ ''-'' @ padStart2 m @ ''-'' @ padStart2 d) \<and>
        is_canonical_date (y @ ''-'' @ padStart2 m @ ''-'' @ padStart2 d)) \<and>
     (\<not> re_test re_ymd s \<and> \<not> re_test re_mdy s \<longrightarrow> normalizeDate s = Inr s))"
proof (intro conjI impI)
  show "is_trimmed (value_at (parseCSVLine line) index)" by (rule field_is_trimmed)
next
  assume "is_trimmed s"
  then have t: "trim s = s" by (rule trim_trimmed)
  show "\<forall>y a m b d.
        s = y @ a # m @ b # d \<and> is_digits 4 y \<and> isDateSep a \<and> is_digits_1_2 m \<and>
        isDateSep b \<and> is_digits_1_2 d \<longrightarrow>
        re_test re_ymd s \<and>
        normalizeDate s = Inr (y @ ''-'' @ padStart2 m @ ''-'' @ padStart2 d) \<and>
        is_canonical_date (y @ ''-'' @ padStart2 m @ ''-'' @ padStart2 d)"
    using normalizeDate_after_trim [of s] unfolding t by blast
next
  assume "is_trimmed s"
  then have t: "trim s = s" by (rule trim_trimmed)
  show "\<forall>m a d b y.
        s = m @ a # d @ b # y \<and> is_digits_1_2 m \<and> isDateSep a \<and> is_digits_1_2 d \<and>
        isDateSep b \<and> is_digits 4 y \<longrightarrow>
        re_test re_mdy s \<and>
        normalizeDate s = Inr (y @ ''-'' @ padStart2 m @ ''-'' @ padStart2 d) \<and>
        is_canonical_date (y @ ''-'' @ padStart2 m @ ''-'' @ padStart2 d)"
    using normalizeDate_after_trim [of s] unfolding t by blast
next
  assume "is_trimmed s"
  then have t: "trim s = s" by (rule trim_trimmed)
  assume "\<not> re_test re_ymd s \<and> \<not> re_test re_mdy s"
  then show "normalizeDate s = Inr s"
    using normalizeDate_other [of s] unfolding t by blast
qed

theorem normalizeDate_patterns_witness:
  "is_trimmed ''2024/3/5'' \<and> normalizeDate ''2024/3/5'' = Inr ''2024-03-05'' \<and>
   is_trimmed ''3-5/2024'' \<and> normalizeDate ''3-5/2024'' = Inr ''2024-03-05'' \<and>
   is_canonical_date ''2024-03-05'' \<and>
   is_trimmed ''05/03/24'' \<and>
   \<not> re_test re_ymd ''05/03/24'' \<and> \<not> re_test re_mdy ''05/03/24'' \<and>
   normalizeDate ''05/03/24'' = Inr ''05/03/24''"
proof -
  have t: "is_trimmed ''2024/3/5''" "is_trimmed ''3-5/2024''" "is_trimmed ''05/03/24''"
    by code_simp+
  have s1: "''2024/3/5'' = ''2024'' @ CHR ''/'' # ''3'' @ CHR ''/'' # ''5''" by simp
  have s2: "''3-5/2024'' = ''3'' @ CHR ''-'' # ''5'' @ CHR ''/'' # ''2024''" by simp
  have d: "is_digits 4 ''2024''" "is_digits_1_2 ''3''" "is_digits_1_2 ''5''"
    "isDateSep (CHR ''/'')" "isDateSep (CHR ''-'')"
    by code_simp+
  have n: "\<not> re_test re_ymd ''05/03/24''" "\<not> re_test re_mdy ''05/03/24''" by code_simp+
  have p: "''2024'' @ ''-'' @ padStart2 ''3'' @ ''-'' @ padStart2 ''5'' = ''2024-03-05''"
    by code_simp
  have 1: "normalizeDate ''2024/3/5'' = Inr ''2024-03-05'' \<and> is_canonical_date ''2024-03-05''"
    using normalizeDate_patterns [of "[]" 0 "''2024/3/5''"] t(1) s1 d unfolding p [symmetric] by blast
  have 2: "normalizeDate ''3-5/2024'' = Inr ''2024-03-05''"
    using normalizeDate_patterns [of "[]" 0 "''3-5/2024''"] t(2) s2 d unfolding p [symmetric] by blast
  have 3: "normalizeDate ''05/03/24'' = Inr ''05/03/24''"
    using normalizeDate_patterns [of "[]" 0 "''05/03/24''"] t(3) n by blast
  show ?thesis using 1 2 3 n t by blast
qed

text \<open>
  C8: normalization is idempotent. For every string the result of \<open>normalizeDate\<close> is
  returned unchanged when it is normalized again (in particular for the strings in either
  supported pattern), and a string already in the form \<open>YYYY-MM-DD\<close> is returned as it is.
\<close>

theorem normalizeDate_idempotent:
  "(\<exists>r. normalizeDate s = Inr r \<and> normalizeDate r = Inr r) \<and>
   (is_canonical_date s \<longrightarrow> normalizeDate s = Inr s)"
  using normalizeDate_idem_aux [of s] normalizeDate_canonical [of s] by blast

theorem normalizeDate_idempotent_witness:
  "is_canonical_date ''2024-03-05'' \<and> normalizeDate ''2024-03-05'' = Inr ''2024-03-05''"
proof -
  have c: "is_canonical_date ''2024-03-05''" by code_simp
  then show ?thesis using normalizeDate_idempotent [of "''2024-03-05''"] by blast
qed

section \<open>Properties of CSV parsing\<close>

lemma normalizeDate_total: "\<exists>r. normalizeDate s = Inr r"
  using normalizeDate_idem_aux [of s] by blast

lemma assign_field_total: "\<exists>t'. assign_field t h v = Inr t'"
  using normalizeDate_total [of v] by (auto simp: assign_field_def split: field_kind.splits)

lemma forEach_headers_total: "\<exists>t'. forEach_headers hs i vs t = Inr t'"
proof (induction hs arbitrary: i t)
  case Nil
  then show ?case by simp
next
  case (Cons h hs)
  obtain t1 where "assign_field t h (value_at vs i) = Inr t1" using assign_field_total by blast
  then show ?case using Cons.IH [of "Suc i" t1] by simp
qed

lemma assign_field_income:
  "assign_field t h v = Inr t' \<Longrightarrow>
     p_income t' = (if header_field h = IncomeF then Some (parseNumber v) else p_income t)"
  by (auto simp: assign_field_def split: field_kind.splits sum.splits)

lemma assign_field_expense:
  "assign_field t h v = Inr t' \<Longrightarrow>
     p_expense t' = (if header_field h = ExpenseF then Some (parseNumber v) else p_expense t)"
  by (auto simp: assign_field_def split: field_kind.splits sum.splits)

lemma forEach_headers_income:
  "forEach_headers hs i vs t = Inr t' \<Longrightarrow>
     p_income t' = (case last_column IncomeF hs of
                      None \<Rightarrow> p_income t
                    | Some k \<Rightarrow> Some (parseNumber (value_at vs (i + k))))"
proof (induction hs arbitrary: i t)
  case Nil
  then show ?case by simp
next
  case (Cons h hs)
  from Cons.prems obtain t1 where a: "assign_field t h (value_at vs i) = Inr t1"
    and r: "forEach_headers hs (Suc i) vs t1 = Inr t'"
    by (auto split: sum.splits)
  show ?case
    using Cons.IH [OF r] assign_field_income [OF a] by (auto split: option.splits)
qed

lemma forEach_headers_expense:
  "forEach_headers hs i vs t = Inr t' \<Longrightarrow>
     p_expense t' = (case last_column ExpenseF hs of
                      None \<Rightarrow> p_expense t
                    | Some k \<Rightarrow> Some (parseNumber (value_at vs (i + k))))"
proof (induction hs arbitrary: i t)
  case Nil
  then show ?case by simp
next
  case (Cons h hs)
  from Cons.prems obtain t1 where a: "assign_field t h (value_at vs i) = Inr t1"
    and r: "forEach_headers hs (Suc i) vs t1 = Inr t'"
    by (auto split: sum.splits)
  show ?case
    using Cons.IH [OF r] assign_field_expense [OF a] by (auto split: option.splits)
qed

lemma parseCSV_loop_total: "\<exists>ts. parseCSV_loop hs lines acc = Inr ts"
proof (induction lines arbitrary: acc)
  case Nil
  then show ?case by simp
next
  case (Cons l lines)
  obtain t where "forEach_headers hs 0 (parseCSVLine l) empty_transaction = Inr t"
    using forEach_headers_total by blast
  then show ?case using Cons.IH by (simp add: Let_def)
qed

lemma parseCSV_loop_members:
  "parseCSV_loop hs lines acc = Inr ts \<Longrightarrow> t \<in> set ts \<Longrightarrow>
     t \<in> set acc \<or> (\<exists>l\<in>set lines. accepted_from hs (parseCSVLine l) t)"
proof (induction lines arbitrary: acc)
  case Nil
  then show ?case by simp
next
  case (Cons l lines)
  show ?case
  proof (cases "length (parseCSVLine l) < 3")
    case True
    with Cons.prems have "parseCSV_loop hs lines acc = Inr ts" by simp
    from Cons.IH [OF this Cons.prems(2)] show ?thesis by auto
  next
    case False
    obtain t1 where f: "forEach_headers hs 0 (parseCSVLine l) empty_transaction = Inr t1"
      using forEach_headers_total by blast
    show ?thesis
    proof (cases "truthy (p_date t1) \<and> truthy (p_category t1)")
      case True
      with False f Cons.prems have "parseCSV_loop hs lines (acc @ [t1]) = Inr ts" by simp
      from Cons.IH [OF this Cons.prems(2)] show ?thesis
        using False f True by (auto simp: accepted_from_def)
    next
      case nt: False
      with False f Cons.prems have "parseCSV_loop hs lines acc = Inr ts" by auto
      from Cons.IH [OF this Cons.prems(2)] show ?thesis by auto
    qed
  qed
qed

lemma parseCSV_loop_candidates:
  "parseCSV_loop hs lines acc =
     parseCSV_loop hs (filter (\<lambda>l. \<not> length (parseCSVLine l) < 3) lines) acc"
proof (induction lines arbitrary: acc)
  case Nil
  then show ?case by simp
next
  case (Cons l lines)
  show ?case
  proof (cases "length (parseCSVLine l) < 3")
    case True
    then show ?thesis using Cons.IH by simp
  next
    case False
    then show ?thesis using Cons.IH by (simp add: Let_def split: sum.splits)
  qed
qed

lemma parseCSV_loop_length:
  "parseCSV_loop hs lines acc = Inr ts \<Longrightarrow>
     length ts \<le> length acc + length (filter (\<lambda>l. \<not> length (parseCSVLine l) < 3) lines)"
proof (induction lines arbitrary: acc)
  case Nil
  then show ?case by auto
next
  case (Cons l lines)
  show ?case
  proof (cases "length (parseCSVLine l) < 3")
    case True
    with Cons.prems have "parseCSV_loop hs lines acc = Inr ts" by simp
    from Cons.IH [OF this] show ?thesis using True by simp
  next
    case False
    obtain t1 where f: "forEach_headers hs 0 (parseCSVLine l) empty_transaction = Inr t1"
      using forEach_headers_total by blast
    show ?thesis
    proof (cases "truthy (p_date t1) \<and> truthy (p_category t1)")
      case True
      with False f Cons.prems have "parseCSV_loop hs lines (acc @ [t1]) = Inr ts" by simp
      from Cons.IH [OF this] show ?thesis using False by simp
    next
      case nt: False
      with False f Cons.prems have "parseCSV_loop hs lines acc = Inr ts" by auto
      from Cons.IH [OF this] show ?thesis using False by simp
    qed
  qed
qed

lemma csv_lines_split: "csv_lines text = header_line text # data_rows text"
  using split_on_not_Nil [of isNewline "trim text"]
  by (auto simp: header_line_def data_rows_def csv_lines_def split: list.splits)

lemma parseCSV_eq:
  "parseCSV text = parseCSV_loop (csv_headers (header_line text)) (data_rows text) []"
  by (simp add: parseCSV_def csv_lines_split)

lemma scale10_nonneg: "0 \<le> x \<Longrightarrow> 0 \<le> scale10 k x"
  by (simp add: scale10_def)

lemma scale10_not_neg: "\<not> scale10 k (of_nat n) < 0"
  using scale10_nonneg [of "of_nat n" k] by simp

lemma take_sign_neg: "take_sign s = (True, u) \<Longrightarrow> startsWith s ''-''"
  by (cases s) (auto simp: take_sign_def split: if_splits)

lemma parseFloat_negative:
  assumes "is_negative (parseFloat s)"
  shows "startsWith (trimStart s) ''-''"
proof -
  obtain neg u where ts: "take_sign (trimStart s) = (neg, u)" by (cases "take_sign (trimStart s)")
  have "neg"
  proof (rule ccontr)
    assume "\<not> neg"
    then have "\<not> is_negative (parseFloat s)"
      using ts by (simp add: parseFloat_def Let_def is_negative_def scale10_not_neg)
    with assms show False by simp
  qed
  with ts have "take_sign (trimStart s) = (True, u)" by simp
  then show ?thesis by (rule take_sign_neg)
qed

lemma parseNumber_negative:
  assumes "is_negative (parseNumber v)"
  shows "v \<noteq> [] \<and> startsWith (trimStart (remove_commas v)) ''-''"
proof -
  have ne: "v \<noteq> []" using assms by (auto simp: parseNumber_def is_negative_def)
  then have "is_negative (or_zero (parseFloat (remove_commas v)))"
    using assms by (simp add: parseNumber_def)
  then have "is_negative (parseFloat (remove_commas v))"
    by (cases "parseFloat (remove_commas v)") (simp_all add: or_zero_def is_negative_def)
  then show ?thesis using ne parseFloat_negative by blast
qed

lemma parseNumber_zero:
  "v = [] \<or> parseFloat (remove_commas v) = NaN \<Longrightarrow> parseNumber v = Fin 0"
  by (auto simp: parseNumber_def or_zero_def)

lemma truthy_Some: "truthy x \<Longrightarrow> \<exists>s. x = Some s \<and> s \<noteq> []"
  by (cases x) (simp_all add: truthy_def)

lemma or_zero_negative: "is_negative (or_zero_opt x) \<Longrightarrow> \<exists>n. x = Some n \<and> is_negative n"
  by (cases x) (auto simp: or_zero_opt_def or_zero_def is_negative_def split: js_number.splits)

lemma empty_amounts: "p_income empty_transaction = None" "p_expense empty_transaction = None"
  by (simp_all add: empty_transaction_def)

lemma accepted_income:
  assumes "accepted_from hs vs t"
  shows "p_income t = (case last_column IncomeF hs of
                         None \<Rightarrow> None | Some k \<Rightarrow> Some (parseNumber (value_at vs k)))"
  using forEach_headers_income [of hs 0 vs empty_transaction t] assms
  by (auto simp: accepted_from_def empty_amounts split: option.splits)

lemma accepted_expense:
  assumes "accepted_from hs vs t"
  shows "p_expense t = (case last_column ExpenseF hs of
                         None \<Rightarrow> None | Some k \<Rightarrow> Some (parseNumber (value_at vs k)))"
  using forEach_headers_expense [of hs 0 vs empty_transaction t] assms
  by (auto simp: accepted_from_def empty_amounts split: option.splits)

lemma parseCSV_rows:
  "\<exists>ts. parseCSV text = Inr ts \<and>
     (\<forall>t\<in>set ts. \<exists>line\<in>set (candidate_rows text).
         accepted_from (csv_headers (header_line text)) (parseCSVLine line) t)"
proof -
  let ?hs = "csv_headers (header_line text)"
  obtain ts where ts: "parseCSV_loop ?hs (candidate_rows text) [] = Inr ts"
    using parseCSV_loop_total by blast
  have p: "parseCSV text = Inr ts"
    unfolding parseCSV_eq using ts parseCSV_loop_candidates [of ?hs "data_rows text" "[]"]
    by (simp add: candidate_rows_def)
  have "\<forall>t\<in>set ts. \<exists>line\<in>set (candidate_rows text). accepted_from ?hs (parseCSVLine line) t"
    using parseCSV_loop_members [OF ts] by auto
  with p show ?thesis by blast
qed

lemma candidate_in_data: "set (candidate_rows text) \<subseteq> set (data_rows text)"
  by (auto simp: candidate_rows_def)

text \<open>
  C5: every data row that tokenizes to fewer than three fields is skipped without an
  error. The data rows split into the candidate rows and the discarded rows; \<open>parseCSV\<close>
  returns (it never throws), its result is the result of the loop over the candidate rows
  alone, and every record of the result comes from a candidate row.
\<close>

theorem parseCSV_skips_short_rows:
  "length (data_rows text) = length (candidate_rows text) + length (discarded_rows text) \<and>
   (\<forall>line\<in>set (discarded_rows text). length (parseCSVLine line) < 3) \<and>
   (\<exists>ts. parseCSV text = Inr ts \<and>
         parseCSV_loop (csv_headers (header_line text)) (candidate_rows text) [] = Inr ts \<and>
         length ts \<le> length (candidate_rows text) \<and>
         (\<forall>t\<in>set ts. \<exists>line\<in>set (candidate_rows text).
             accepted_from (csv_headers (header_line text)) (parseCSVLine line) t))"
proof -
  let ?hs = "csv_headers (header_line text)"
  have 1: "length (data_rows text) = length (candidate_rows text) + length (discarded_rows text)"
    using sum_length_filter_compl [of "\<lambda>line. length (parseCSVLine line) < 3" "data_rows text"]
    by (simp add: candidate_rows_def discarded_rows_def)
  have 2: "\<forall>line\<in>set (discarded_rows text). length (parseCSVLine line) < 3"
    by (simp add: discarded_rows_def)
  obtain ts where ts: "parseCSV text = Inr ts"
    and m: "\<forall>t\<in>set ts. \<exists>line\<in>set (candidate_rows text). accepted_from ?hs (parseCSVLine line) t"
    using parseCSV_rows by blast
  have c: "parseCSV_loop ?hs (candidate_rows text) [] = Inr ts"
    using ts parseCSV_loop_candidates [of ?hs "data_rows text" "[]"]
    by (simp add: parseCSV_eq candidate_rows_def)
  have "length ts \<le> length (candidate_rows text)"
    using parseCSV_loop_length [OF c] by (simp add: candidate_rows_def)
  with 1 2 ts c m show ?thesis by blast
qed

theorem parseCSV_skips_short_rows_witness:
  "data_rows ''Date,Category,Expense\<newline>a,b\<newline>1/2/2024,Food,5'' = [''a,b'', ''1/2/2024,Food,5''] \<and>
   discarded_rows ''Date,Category,Expense\<newline>a,b\<newline>1/2/2024,Food,5'' = [''a,b''] \<and>
   candidate_rows ''Date,Category,Expense\<newline>a,b\<newline>1/2/2024,Food,5'' = [''1/2/2024,Food,5''] \<and>
   length (parseCSVLine ''a,b'') < 3 \<and>
   (\<exists>ts. parseCSV ''Date,Category,Expense\<newline>a,b\<newline>1/2/2024,Food,5'' = Inr ts \<and> length ts \<le> 1)"
proof -
  let ?x = "''Date,Category,Expense\<newline>a,b\<newline>1/2/2024,Food,5''"
  have d: "data_rows ?x = [''a,b'', ''1/2/2024,Food,5'']" by code_simp
  have k: "discarded_rows ?x = [''a,b'']" by code_simp
  have c: "candidate_rows ?x = [''1/2/2024,Food,5'']" by code_simp
  show ?thesis using parseCSV_skips_short_rows [of ?x] unfolding d k c by auto
qed

lemma amount_rule_parse:
  assumes "amount = (case column of None \<Rightarrow> None | Some k \<Rightarrow> Some (parseNumber (value_at vs k)))"
    and "inserted = or_zero_opt amount"
  shows "amount_rule column vs amount inserted"
proof (cases column)
  case None
  then show ?thesis using assms by (simp add: amount_rule_def or_zero_opt_def)
next
  case (Some k)
  have "parseNumber (value_at vs k) = Fin 0"
    if "length vs \<le> k \<or> vs ! k = [] \<or> parseFloat (remove_commas (vs ! k)) = NaN"
    using that by (intro parseNumber_zero) (auto simp: value_at_def)
  then show ?thesis using Some assms(1) by (simp add: amount_rule_def)
qed

lemma accepted_income_rule:
  assumes "accepted_from hs vs t"
  shows "amount_rule (last_column IncomeF hs) vs (p_income t) (r_income (to_insert bookId userId t))"
  using accepted_income [OF assms] by (intro amount_rule_parse) (simp_all add: to_insert_def)

lemma accepted_expense_rule:
  assumes "accepted_from hs vs t"
  shows "amount_rule (last_column ExpenseF hs) vs (p_expense t) (r_expense (to_insert bookId userId t))"
  using accepted_expense [OF assms] by (intro amount_rule_parse) (simp_all add: to_insert_def)

text \<open>
  C3, as stated, fails for the amounts. With no header for the income the record that
  \<open>parseCSV\<close> returns has no income at all (the property is \<open>undefined\<close>, not \<open>0\<close>; the
  zero appears only in the row that the upload handler prepares), and a value that is not
  a number but starts with one, such as \<open>12abc\<close>, gives that number, not \<open>0\<close>.
\<close>

theorem parseCSV_amount_default_counterexample:
  "parseCSV ''Date,Category,Expense\<newline>1/2/2024,Food,12abc'' =
     Inr [\<lparr>p_date = Some ''2024-01-02'', p_category = Some ''Food'', p_subcategory = None,
           p_income = None, p_expense = Some (Fin 12), p_note = None, p_paid_from = None\<rparr>] \<and>
   (None :: js_number option) \<noteq> Some (Fin 0) \<and> Fin 12 \<noteq> Fin 0"
  by code_simp

text \<open>
  C3, amended: \<open>parseCSV\<close> returns for every text, and every record of its result has a
  non-empty date and a non-empty category. The record comes from a data row. When a header
  takes the income branch, the income of the record is \<open>parseNumber\<close> of the row's value in
  the last such column, and it is \<open>0\<close> whenever the row has no value there, the value is
  empty, or \<open>parseFloat\<close> finds no number at its start. When no header takes the income
  branch, the income of the record is unset, and the row prepared for insertion carries
  \<open>0\<close>. The same holds for the expense.
\<close>

theorem parseCSV_accepted_records:
  "\<exists>ts. parseCSV text = Inr ts \<and>
     (\<forall>t\<in>set ts.
        (\<exists>d. p_date t = Some d \<and> d \<noteq> []) \<and>
        (\<exists>c. p_category t = Some c \<and> c \<noteq> []) \<and>
        (\<exists>line\<in>set (data_rows text).
           accepted_from (csv_headers (header_line text)) (parseCSVLine line) t \<and>
           amount_rule (last_column IncomeF (csv_headers (header_line text))) (parseCSVLine line)
             (p_income t) (r_income (to_insert bookId userId t)) \<and>
           amount_rule (last_column ExpenseF (csv_headers (header_line text))) (parseCSVLine line)
             (p_expense t) (r_expense (to_insert bookId userId t))))"
proof -
  let ?hs = "csv_headers (header_line text)"
  obtain ts where ts: "parseCSV text = Inr ts"
    and m: "\<forall>t\<in>set ts. \<exists>line\<in>set (candidate_rows text). accepted_from ?hs (parseCSVLine line) t"
    using parseCSV_rows by blast
  have "(\<exists>d. p_date t = Some d \<and> d \<noteq> []) \<and>
        (\<exists>c. p_category t = Some c \<and> c \<noteq> []) \<and>
        (\<exists>line\<in>set (data_rows text).
           accepted_from ?hs (parseCSVLine line) t \<and>
           amount_rule (last_column IncomeF ?hs) (parseCSVLine line)
             (p_income t) (r_income (to_insert bookId userId t)) \<and>
           amount_rule (last_column ExpenseF ?hs) (parseCSVLine line)
             (p_expense t) (r_expense (to_insert bookId userId t)))"
    if t: "t \<in> set ts" for t
  proof -
    from m t obtain line where l: "line \<in> set (candidate_rows text)"
      and acc: "accepted_from ?hs (parseCSVLine line) t" by blast
    have ld: "line \<in> set (data_rows text)" using l candidate_in_data by blast
    have d: "\<exists>d. p_date t = Some d \<and> d \<noteq> []"
      using acc by (intro truthy_Some) (simp add: accepted_from_def)
    have c: "\<exists>c. p_category t = Some c \<and> c \<noteq> []"
      using acc by (intro truthy_Some) (simp add: accepted_from_def)
    have i: "amount_rule (last_column IncomeF ?hs) (parseCSVLine line)
               (p_income t) (r_income (to_insert bookId userId t))"
      using acc by (rule accepted_income_rule)
    have e: "amount_rule (last_column ExpenseF ?hs) (parseCSVLine line)
               (p_expense t) (r_expense (to_insert bookId userId t))"
      using acc by (rule accepted_expense_rule)
    show ?thesis
    proof (intro conjI)
      show "\<exists>line\<in>set (data_rows text).
           accepted_from ?hs (parseCSVLine line) t \<and>
           amount_rule (last_column IncomeF ?hs) (parseCSVLine line)
             (p_income t) (r_income (to_insert bookId userId t)) \<and>
           amount_rule (last_column ExpenseF ?hs) (parseCSVLine line)
             (p_expense t) (r_expense (to_insert bookId userId t))"
        using ld acc i e by (intro bexI [of _ line] conjI)
    qed (rule d c)+
  qed
  then have "\<forall>t\<in>set ts.
        (\<exists>d. p_date t = Some d \<and> d \<noteq> []) \<and>
        (\<exists>c. p_category t = Some c \<and> c \<noteq> []) \<and>
        (\<exists>line\<in>set (data_rows text).
           accepted_from ?hs (parseCSVLine line) t \<and>
           amount_rule (last_column IncomeF ?hs) (parseCSVLine line)
             (p_income t) (r_income (to_insert bookId userId t)) \<and>
           amount_rule (last_column ExpenseF ?hs) (parseCSVLine line)
             (p_expense t) (r_expense (to_insert bookId userId t)))"
    by (rule ballI)
  with ts show ?thesis by (intro exI conjI)
qed

theorem parseCSV_accepted_records_witness:
  "parseCSV ''Date,Category,Income,Expense\<newline>1/2/2024,Food,,abc'' =
     Inr [\<lparr>p_date = Some ''2024-01-02'', p_category = Some ''Food'', p_subcategory = None,
           p_income = Some (Fin 0), p_expense = Some (Fin 0), p_note = None, p_paid_from = None\<rparr>] \<and>
   data_rows ''Date,Category,Income,Expense\<newline>1/2/2024,Food,,abc'' = [''1/2/2024,Food,,abc''] \<and>
   amount_rule (Some 2) [''1/2/2024'', ''Food'', [], ''abc''] (Some (Fin 0)) (Fin 0) \<and>
   amount_rule (Some 3) [''1/2/2024'', ''Food'', [], ''abc''] (Some (Fin 0)) (Fin 0) \<and>
   [''1/2/2024'', ''Food'', [], ''abc''] ! 2 = [] \<and>
   parseFloat (remove_commas ([''1/2/2024'', ''Food'', [], ''abc''] ! 3)) = NaN"
proof -
  let ?x = "''Date,Category,Income,Expense\<newline>1/2/2024,Food,,abc''"
  let ?t = "\<lparr>p_date = Some ''2024-01-02'', p_category = Some ''Food'', p_subcategory = None,
           p_income = Some (Fin 0), p_expense = Some (Fin 0), p_note = None, p_paid_from = None\<rparr>"
  have e: "parseCSV ?x = Inr [?t]" by code_simp
  have d: "data_rows ?x = [''1/2/2024,Food,,abc'']" by code_simp
  have l: "parseCSVLine ''1/2/2024,Food,,abc'' = [''1/2/2024'', ''Food'', [], ''abc'']" by code_simp
  have c: "last_column IncomeF (csv_headers (header_line ?x)) = Some 2"
    "last_column ExpenseF (csv_headers (header_line ?x)) = Some 3" by code_simp+
  have n: "parseFloat (remove_commas ([''1/2/2024'', ''Food'', [], ''abc''] ! 3)) = NaN" by code_simp
  have r: "r_income (to_insert ''b'' ''u'' ?t) = Fin 0" "r_expense (to_insert ''b'' ''u'' ?t) = Fin 0"
    by code_simp+
  have "amount_rule (Some 2) [''1/2/2024'', ''Food'', [], ''abc''] (Some (Fin 0)) (Fin 0) \<and>
        amount_rule (Some 3) [''1/2/2024'', ''Food'', [], ''abc''] (Some (Fin 0)) (Fin 0)"
    using parseCSV_accepted_records [of ?x "''b''" "''u''"] unfolding e d c by (simp add: l r)
  then show ?thesis using e d n by simp
qed


text \<open>
  C4, as stated, fails: a minus sign in an amount field is parsed, so the record and the
  row prepared for insertion carry a negative amount.
\<close>

theorem parseCSV_negative_amount_counterexample:
  "parseCSV ''Date,Category,Expense\<newline>1/2/2024,Food,-5'' =
     Inr [\<lparr>p_date = Some ''2024-01-02'', p_category = Some ''Food'', p_subcategory = None,
           p_income = None, p_expense = Some (Fin (- 5)), p_note = None, p_paid_from = None\<rparr>] \<and>
   is_negative (Fin (- 5)) \<and>
   r_expense (to_insert ''b'' ''u''
     \<lparr>p_date = Some ''2024-01-02'', p_category = Some ''Food'', p_subcategory = None,
      p_income = None, p_expense = Some (Fin (- 5)), p_note = None, p_paid_from = None\<rparr>) = Fin (- 5)"
  by code_simp

lemma sign_rule_parse:
  assumes "amount = (case column of None \<Rightarrow> None | Some k \<Rightarrow> Some (parseNumber (value_at vs k)))"
    and "inserted = or_zero_opt amount"
  shows "sign_rule column vs amount inserted"
proof -
  have "case column of None \<Rightarrow> False
        | Some k \<Rightarrow> k < length vs \<and> startsWith (trimStart (remove_commas (vs ! k))) ''-''"
    if neg: "amount_negative amount \<or> is_negative inserted"
  proof -
    from neg assms(2) obtain x where x: "amount = Some x" "is_negative x"
      using or_zero_negative [of amount] by (cases amount) (auto simp: amount_negative_def)
    with assms(1) obtain k where k: "column = Some k" "x = parseNumber (value_at vs k)"
      by (cases column) auto
    from parseNumber_negative [of "value_at vs k"] x(2) k(2)
    have v: "value_at vs k \<noteq> []" "startsWith (trimStart (remove_commas (value_at vs k))) ''-''"
      by simp_all
    from v(1) have lt: "k < length vs" by (auto simp: value_at_def split: if_splits)
    with v(2) have "startsWith (trimStart (remove_commas (vs ! k))) ''-''" by (simp add: value_at_def)
    with k(1) lt show ?thesis by simp
  qed
  then show ?thesis unfolding sign_rule_def by blast
qed

lemma accepted_income_sign:
  assumes "accepted_from hs vs t"
  shows "sign_rule (last_column IncomeF hs) vs (p_income t) (r_income (to_insert bookId userId t))"
  using accepted_income [OF assms] by (intro sign_rule_parse) (simp_all add: to_insert_def)

lemma accepted_expense_sign:
  assumes "accepted_from hs vs t"
  shows "sign_rule (last_column ExpenseF hs) vs (p_expense t) (r_expense (to_insert bookId userId t))"
  using accepted_expense [OF assms] by (intro sign_rule_parse) (simp_all add: to_insert_def)

text \<open>
  C4, amended: for every record that \<open>parseCSV\<close> produces, and for the row prepared from it
  for insertion, the income and the expense are non-negative whenever the field of the
  amount's column, once its commas and leading white space are removed, does not begin with
  a minus sign: a negative amount occurs only for a field that begins with one.
\<close>

theorem parseCSV_amount_signs:
  "\<exists>ts. parseCSV text = Inr ts \<and>
     (\<forall>t\<in>set ts. \<exists>line\<in>set (data_rows text).
        accepted_from (csv_headers (header_line text)) (parseCSVLine line) t \<and>
        sign_rule (last_column IncomeF (csv_headers (header_line text))) (parseCSVLine line)
          (p_income t) (r_income (to_insert bookId userId t)) \<and>
        sign_rule (last_column ExpenseF (csv_headers (header_line text))) (parseCSVLine line)
          (p_expense t) (r_expense (to_insert bookId userId t)))"
proof -
  let ?hs = "csv_headers (header_line text)"
  obtain ts where ts: "parseCSV text = Inr ts"
    and m: "\<forall>t\<in>set ts. \<exists>line\<in>set (candidate_rows text). accepted_from ?hs (parseCSVLine line) t"
    using parseCSV_rows by blast
  have "\<exists>line\<in>set (data_rows text).
        accepted_from ?hs (parseCSVLine line) t \<and>
        sign_rule (last_column IncomeF ?hs) (parseCSVLine line)
          (p_income t) (r_income (to_insert bookId userId t)) \<and>
        sign_rule (last_column ExpenseF ?hs) (parseCSVLine line)
          (p_expense t) (r_expense (to_insert bookId userId t))"
    if t: "t \<in> set ts" for t
  proof -
    from m t obtain line where l: "line \<in> set (candidate_rows text)"
      and acc: "accepted_from ?hs (parseCSVLine line) t" by blast
    have ld: "line \<in> set (data_rows text)" using l candidate_in_data by blast
    show ?thesis
      using ld acc accepted_income_sign [OF acc] accepted_expense_sign [OF acc]
      by (intro bexI [of _ line] conjI)
  qed
  then have "\<forall>t\<in>set ts. \<exists>line\<in>set (data_rows text).
        accepted_from ?hs (parseCSVLine line) t \<and>
        sign_rule (last_column IncomeF ?hs) (parseCSVLine line)
          (p_income t) (r_income (to_insert bookId userId t)) \<and>
        sign_rule (last_column ExpenseF ?hs) (parseCSVLine line)
          (p_expense t) (r_expense (to_insert bookId userId t))"
    by (rule ballI)
  with ts show ?thesis by (intro exI conjI)
qed

theorem parseCSV_amount_signs_witness:
  "parseCSV ''Date,Category,Expense\<newline>1/2/2024,Food,-5'' =
     Inr [\<lparr>p_date = Some ''2024-01-02'', p_category = Some ''Food'', p_subcategory = None,
           p_income = None, p_expense = Some (Fin (- 5)), p_note = None, p_paid_from = None\<rparr>] \<and>
   amount_negative (Some (Fin (- 5))) \<and>
   sign_rule (Some 2) [''1/2/2024'', ''Food'', ''-5''] (Some (Fin (- 5))) (Fin (- 5)) \<and>
   startsWith (trimStart (remove_commas ([''1/2/2024'', ''Food'', ''-5''] ! 2))) ''-''"
proof -
  let ?x = "''Date,Category,Expense\<newline>1/2/2024,Food,-5''"
  let ?t = "\<lparr>p_date = Some ''2024-01-02'', p_category = Some ''Food'', p_subcategory = None,
           p_income = None, p_expense = Some (Fin (- 5)), p_note = None, p_paid_from = None\<rparr>"
  have e: "parseCSV ?x = Inr [?t]" by code_simp
  have d: "data_rows ?x = [''1/2/2024,Food,-5'']" by code_simp
  have l: "parseCSVLine ''1/2/2024,Food,-5'' = [''1/2/2024'', ''Food'', ''-5'']" by code_simp
  have c: "last_column ExpenseF (csv_headers (header_line ?x)) = Some 2" by code_simp
  have r: "r_expense (to_insert ''b'' ''u'' ?t) = Fin (- 5)" by code_simp
  have a: "amount_negative (Some (Fin (- 5)))" by code_simp
  have s: "sign_rule (Some 2) [''1/2/2024'', ''Food'', ''-5''] (Some (Fin (- 5))) (Fin (- 5))"
    using parseCSV_amount_signs [of ?x "''b''" "''u''"] unfolding e d c by (simp add: l r)
  then have "startsWith (trimStart (remove_commas ([''1/2/2024'', ''Food'', ''-5''] ! 2))) ''-''"
    using a unfolding sign_rule_def by simp
  with e a s show ?thesis by simp
qed


section \<open>Properties of the upload handler\<close>

lemma handleFileSelect_wrong_extension:
  "\<not> endsWith (file_name f) ''.csv'' \<Longrightarrow>
     handleFileSelect b u m ins (Some f) = [ToastError ''Please upload a CSV file'']"
  by (simp add: handleFileSelect_def)

lemma handleFileSelect_no_rows:
  "endsWith (file_name f) ''.csv'' \<Longrightarrow> file_text f = Fulfilled text \<Longrightarrow> parseCSV text = Inr [] \<Longrightarrow>
     handleFileSelect b u m ins (Some f) =
       [SetIsUploading True, ToastError ''No valid transactions found in CSV'', SetIsUploading False]"
  by (simp add: handleFileSelect_def)

lemma handleFileSelect_insert_only_if:
  assumes "list_ex is_insert (handleFileSelect b u m ins (Some f))"
  shows "endsWith (file_name f) ''.csv'' \<and>
         (\<exists>text ts. file_text f = Fulfilled text \<and> parseCSV text = Inr ts \<and> ts \<noteq> [])"
proof -
  have ext: "endsWith (file_name f) ''.csv''"
    using assms by (auto simp: handleFileSelect_def is_insert_def split: if_splits)
  obtain content where t: "file_text f = Fulfilled content"
    using assms ext by (cases "file_text f") (auto simp: handleFileSelect_def is_insert_def)
  obtain ts where p: "parseCSV content = Inr ts"
    using parseCSV_rows by blast
  have "ts \<noteq> []"
    using assms ext t p by (auto simp: handleFileSelect_def is_insert_def)
  with ext t p show ?thesis by blast
qed

lemma run_wrong_extension:
  "run_events ins st [ToastError msg] = st"
  by (simp add: run_events_def)

lemma run_no_rows:
  "\<not> isUploading st \<Longrightarrow>
     run_events ins st [SetIsUploading True, ToastError msg, SetIsUploading False] = st"
  by (simp add: run_events_def)

lemma run_no_rows_table:
  "table_rows (run_events ins st [SetIsUploading True, ToastError msg, SetIsUploading False]) = table_rows st"
  by (simp add: run_events_def)

text \<open>
  C9: the bulk insert is attempted only for a file whose name ends in \<open>.csv\<close> and whose
  text gives at least one record. When the extension is wrong, or the text gives no
  record, no insert is attempted, an error toast is shown, the table is unchanged, and the
  component's state after the handler is the state before it (the handler runs with
  \<open>isUploading\<close> false, since the file input is disabled while it is true).
\<close>

theorem handleFileSelect_rejects_before_write:
  "(list_ex is_insert (handleFileSelect bookId userId inputMounted supabase_insert (Some file)) \<longrightarrow>
      endsWith (file_name file) ''.csv'' \<and>
      (\<exists>text ts. file_text file = Fulfilled text \<and> parseCSV text = Inr ts \<and> ts \<noteq> [])) \<and>
   (\<not> endsWith (file_name file) ''.csv'' \<or>
    (\<exists>text. file_text file = Fulfilled text \<and> parseCSV text = Inr []) \<longrightarrow>
      \<not> list_ex is_insert (handleFileSelect bookId userId inputMounted supabase_insert (Some file)) \<and>
      list_ex is_toast_error (handleFileSelect bookId userId inputMounted supabase_insert (Some file)) \<and>
      table_rows (run_events supabase_insert st
        (handleFileSelect bookId userId inputMounted supabase_insert (Some file))) = table_rows st \<and>
      (\<not> isUploading st \<longrightarrow>
         run_events supabase_insert st
           (handleFileSelect bookId userId inputMounted supabase_insert (Some file)) = st))"
proof (intro conjI impI)
  assume "list_ex is_insert (handleFileSelect bookId userId inputMounted supabase_insert (Some file))"
  then have r: "endsWith (file_name file) ''.csv'' \<and>
      (\<exists>text ts. file_text file = Fulfilled text \<and> parseCSV text = Inr ts \<and> ts \<noteq> [])"
    by (rule handleFileSelect_insert_only_if)
  from r show "endsWith (file_name file) ''.csv''" by blast
  from r show "\<exists>text ts. file_text file = Fulfilled text \<and> parseCSV text = Inr ts \<and> ts \<noteq> []" by blast
next
  let ?evs = "handleFileSelect bookId userId inputMounted supabase_insert (Some file)"
  assume h: "\<not> endsWith (file_name file) ''.csv'' \<or>
    (\<exists>text. file_text file = Fulfilled text \<and> parseCSV text = Inr [])"
  then consider (ext) "\<not> endsWith (file_name file) ''.csv''"
    | (rows) content where "endsWith (file_name file) ''.csv''" "file_text file = Fulfilled content"
        "parseCSV content = Inr []"
    by blast
  then have e: "?evs = [ToastError ''Please upload a CSV file''] \<or>
      ?evs = [SetIsUploading True, ToastError ''No valid transactions found in CSV'', SetIsUploading False]"
  proof cases
    case ext
    then show ?thesis using handleFileSelect_wrong_extension by blast
  next
    case rows
    then show ?thesis using handleFileSelect_no_rows by blast
  qed
  from e show "\<not> list_ex is_insert ?evs" by (auto simp: is_insert_def)
  from e show "list_ex is_toast_error ?evs" by (auto simp: is_toast_error_def)
  from e show "table_rows (run_events supabase_insert st ?evs) = table_rows st"
    using run_wrong_extension run_no_rows_table by metis
  assume "\<not> isUploading st"
  with e show "run_events supabase_insert st ?evs = st"
    using run_wrong_extension run_no_rows by metis
qed

theorem handleFileSelect_rejects_before_write_witness:
  "\<not> endsWith ''data.txt'' ''.csv'' \<and>
   handleFileSelect ''b'' ''u'' True (\<lambda>rows. None)
     (Some \<lparr>file_name = ''data.txt'', file_text = Fulfilled ''Date,Category,Expense\<newline>1/2/2024,Food,5''\<rparr>)
     = [ToastError ''Please upload a CSV file''] \<and>
   \<not> list_ex is_insert (handleFileSelect ''b'' ''u'' True (\<lambda>rows. None)
     (Some \<lparr>file_name = ''data.txt'', file_text = Fulfilled ''Date,Category,Expense\<newline>1/2/2024,Food,5''\<rparr>)) \<and>
   parseCSV ''Date,Category'' = Inr [] \<and>
   run_events (\<lambda>rows. None) \<lparr>isUploading = False, table_rows = []\<rparr>
     (handleFileSelect ''b'' ''u'' True (\<lambda>rows. None)
        (Some \<lparr>file_name = ''a.csv'', file_text = Fulfilled ''Date,Category''\<rparr>))
     = \<lparr>isUploading = False, table_rows = []\<rparr> \<and>
   list_ex is_insert (handleFileSelect ''b'' ''u'' True (\<lambda>rows. None)
     (Some \<lparr>file_name = ''a.csv'', file_text = Fulfilled ''Date,Category,Expense\<newline>1/2/2024,Food,5''\<rparr>)) \<and>
   endsWith ''a.csv'' ''.csv''"
proof -
  let ?ok = "''Date,Category,Expense\<newline>1/2/2024,Food,5''"
  let ?f1 = "\<lparr>file_name = ''data.txt'', file_text = Fulfilled ?ok\<rparr>"
  let ?f2 = "\<lparr>file_name = ''a.csv'', file_text = Fulfilled ''Date,Category''\<rparr>"
  let ?f3 = "\<lparr>file_name = ''a.csv'', file_text = Fulfilled ?ok\<rparr>"
  let ?st = "\<lparr>isUploading = False, table_rows = []\<rparr>"
  let ?ins = "\<lambda>rows :: insert_row list. None :: string option"
  have x1: "\<not> endsWith ''data.txt'' ''.csv''" by code_simp
  have e1: "handleFileSelect ''b'' ''u'' True ?ins (Some ?f1) = [ToastError ''Please upload a CSV file'']"
    by code_simp
  have p2: "parseCSV ''Date,Category'' = Inr []" by code_simp
  have i3: "list_ex is_insert (handleFileSelect ''b'' ''u'' True ?ins (Some ?f3))" by code_simp
  have 1: "\<not> list_ex is_insert (handleFileSelect ''b'' ''u'' True ?ins (Some ?f1))"
    using handleFileSelect_rejects_before_write [of "''b''" "''u''" True ?ins ?f1 ?st] x1 by simp
  have 2: "run_events ?ins ?st (handleFileSelect ''b'' ''u'' True ?ins (Some ?f2)) = ?st"
    using handleFileSelect_rejects_before_write [of "''b''" "''u''" True ?ins ?f2 ?st] p2 by simp
  have 3: "endsWith ''a.csv'' ''.csv''"
    using handleFileSelect_rejects_before_write [of "''b''" "''u''" True ?ins ?f3 ?st] i3 by simp
  show ?thesis using x1 e1 p2 i3 1 2 3 by blast
qed

section \<open>Properties of the chart aggregations\<close>

lemma js_insert_by_value:
  "js_insert by_value_desc x ys = insort_key (\<lambda>g. - value g) x ys"
  by (induction ys) (simp_all add: by_value_desc_def not_after_def)

lemma js_sort_by_value: "js_sort by_value_desc gs = sort_key (\<lambda>g. - value g) gs"
  by (induction gs) (simp_all add: js_insert_by_value)

lemma js_sort_by_value_sorted: "sorted_wrt (\<lambda>a b. value b \<le> value a) (js_sort by_value_desc gs)"
proof -
  have "sorted (map (\<lambda>g. - value g) (sort_key (\<lambda>g. - value g) gs))" by (rule sorted_sort_key)
  then show ?thesis by (simp add: js_sort_by_value sorted_wrt_map)
qed

lemma js_sort_by_value_stable:
  "filter (\<lambda>g. value g = v) (js_sort by_value_desc gs) = filter (\<lambda>g. value g = v) gs"
  using sort_key_stable [of "\<lambda>g. - value g" "- v" gs] by (simp add: js_sort_by_value)

lemma filter_take_prefix: "\<exists>k. filter P (take n xs) = take k (filter P xs)"
proof (induction xs arbitrary: n)
  case Nil
  then show ?case by simp
next
  case (Cons x xs)
  show ?case
  proof (cases n)
    case 0
    then show ?thesis by (intro exI [of _ 0]) simp
  next
    case (Suc m)
    from Cons.IH [of m] obtain k where k: "filter P (take m xs) = take k (filter P xs)" by blast
    show ?thesis
    proof (cases "P x")
      case True
      then show ?thesis using Suc k by (intro exI [of _ "Suc k"]) simp
    next
      case False
      then show ?thesis using Suc k by (intro exI [of _ k]) simp
    qed
  qed
qed

lemma top_sorted_take:
  "length (take n (js_sort by_value_desc gs)) = min n (length gs) \<and>
   sorted_wrt (\<lambda>a b. value b \<le> value a) (take n (js_sort by_value_desc gs)) \<and>
   set (take n (js_sort by_value_desc gs)) \<subseteq> set gs \<and>
   (\<exists>k. filter (\<lambda>g. value g = v) (take n (js_sort by_value_desc gs)) =
          take k (filter (\<lambda>g. value g = v) gs))"
proof (intro conjI)
  show "length (take n (js_sort by_value_desc gs)) = min n (length gs)"
    by (simp add: js_sort_by_value min.commute)
  show "sorted_wrt (\<lambda>a b. value b \<le> value a) (take n (js_sort by_value_desc gs))"
    using js_sort_by_value_sorted by (rule sorted_wrt_take)
  have "set (take n (js_sort by_value_desc gs)) \<subseteq> set (js_sort by_value_desc gs)"
    by (rule set_take_subset)
  then show "set (take n (js_sort by_value_desc gs)) \<subseteq> set gs"
    by (simp add: js_sort_by_value)
  show "\<exists>k. filter (\<lambda>g. value g = v) (take n (js_sort by_value_desc gs)) =
          take k (filter (\<lambda>g. value g = v) gs)"
    using filter_take_prefix [of "\<lambda>g. value g = v" n "js_sort by_value_desc gs"]
    by (simp add: js_sort_by_value_stable)
qed

subsection \<open>Record objects and the vocabulary of the aggregations\<close>

lemma update_absent: "map_of al k = None \<Longrightarrow> AList.update k v al = al @ [(k, v)]"
  by (induction al) (auto split: if_splits)

lemma numbers_sum_append: "numbers_sum (al @ [(k, NumberV x)]) = numbers_sum al + x"
  by (simp add: numbers_sum_def the_number_def)

lemma numbers_sum_update:
  "map_of al k = Some (NumberV x) \<Longrightarrow>
     numbers_sum (AList.update k (NumberV (x + e)) al) = numbers_sum al + e"
  by (induction al) (auto simp: numbers_sum_def the_number_def split: if_splits)

lemma all_numbers_update:
  "all_numbers al \<Longrightarrow> all_numbers (AList.update k (NumberV x) al)"
  by (induction al) (auto simp: all_numbers_def)

lemma all_numbers_map_of:
  "all_numbers al \<Longrightarrow> map_of al k = Some v \<Longrightarrow> \<exists>x. v = NumberV x"
proof -
  assume a: "all_numbers al" and m: "map_of al k = Some v"
  from m have "(k, v) \<in> set al" by (rule map_of_SomeD)
  with a have "v \<noteq> StringV" by (auto simp: all_numbers_def list_all_iff)
  then show ?thesis by (cases v) auto
qed

lemma proto_name: "''__proto__'' \<in> set object_prototype_keys"
  by (simp add: object_prototype_keys_def)

lemma add_expense_numbers:
  assumes "c \<notin> set object_prototype_keys" "all_numbers cats"
  shows "all_numbers (add_expense cats c e) \<and> numbers_sum (add_expense cats c e) = numbers_sum cats + e"
proof -
  have np: "c \<noteq> ''__proto__''" using assms(1) proto_name by auto
  show ?thesis
  proof (cases "map_of cats c")
    case None
    then have "add_expense cats c e = cats @ [(c, NumberV e)]"
      using np assms(1)
      by (simp add: add_expense_def set_primitive_def get_property_def plus_expense_def update_absent)
    then show ?thesis using assms(2) by (simp add: numbers_sum_append all_numbers_def)
  next
    case (Some v)
    with assms(2) obtain x where x: "v = NumberV x" using all_numbers_map_of by blast
    with Some have "add_expense cats c e = AList.update c (NumberV (x + e)) cats"
      using np by (simp add: add_expense_def set_primitive_def get_property_def plus_expense_def)
    then show ?thesis using Some x assms(2) by (simp add: numbers_sum_update all_numbers_update)
  qed
qed

lemma add_expense_empty:
  assumes "c \<notin> set object_prototype_keys"
  shows "all_numbers (add_expense [] c e) \<and> numbers_sum (add_expense [] c e) = e"
  using add_expense_numbers [OF assms, of "[]" e] by (simp add: all_numbers_def numbers_sum_def)

lemma set_update_distinct:
  "distinct (map fst al) \<Longrightarrow>
     set (AList.update k v al) = insert (k, v) {p \<in> set al. fst p \<noteq> k}"
proof (induction al)
  case Nil
  then show ?case by simp
next
  case (Cons p al)
  show ?case
  proof (cases "fst p = k")
    case True
    have "\<forall>q\<in>set al. fst q \<noteq> k" using Cons.prems True by (auto simp: image_iff)
    then have "{q \<in> set al. fst q \<noteq> k} = set al" by auto
    then show ?thesis using True by auto
  next
    case False
    then show ?thesis using Cons by auto
  qed
qed

lemma mset_Object_entries: "mset (Object_entries obj) = mset obj"
  by (simp add: Object_entries_def)

lemma set_Object_entries: "set (Object_entries obj) = set obj"
  using mset_Object_entries [of obj] by (metis set_mset_mset)

lemma Object_entries_no_index:
  "\<forall>kv\<in>set obj. \<not> isArrayIndex (fst kv) \<Longrightarrow> Object_entries obj = obj"
proof -
  assume a: "\<forall>kv\<in>set obj. \<not> isArrayIndex (fst kv)"
  then have "filter (\<lambda>kv. isArrayIndex (fst kv)) obj = []" by (simp add: filter_empty_conv)
  moreover have "filter (\<lambda>kv. \<not> isArrayIndex (fst kv)) obj = obj" using a by (simp add: filter_id_conv)
  ultimately show ?thesis by (simp add: Object_entries_def)
qed

lemma first_occurrences_snoc:
  "first_occurrences (xs @ [k]) = (if k \<in> set xs then first_occurrences xs else first_occurrences xs @ [k])"
  by (simp add: first_occurrences_def)

lemma set_first_occurrences: "set (first_occurrences xs) = set xs"
  by (simp add: first_occurrences_def)

lemma distinct_first_occurrences: "distinct (first_occurrences xs)"
  by (simp add: first_occurrences_def)

lemma with_expense_snoc:
  "with_expense (seen @ [t]) = (if expense t > 0 then with_expense seen @ [t] else with_expense seen)"
  by (simp add: with_expense_def)

lemma expense_of_snoc:
  "expense_of P (seen @ [t]) =
     expense_of P seen + (if expense t > 0 \<and> P t then expense t else 0)"
  by (simp add: expense_of_def with_expense_def)

lemma map_result_all: "\<forall>x\<in>set xs. f x = Inr (g x) \<Longrightarrow> map_result f xs = Inr (map g xs)"
  by (induction xs) simp_all

lemma expense_of_absent:
  "k \<notin> set (map f (with_expense seen)) \<Longrightarrow> expense_of (\<lambda>t. f t = k) seen = 0"
proof -
  assume "k \<notin> set (map f (with_expense seen))"
  then have "filter (\<lambda>t. f t = k) (with_expense seen) = []"
    by (auto simp: filter_empty_conv)
  then show ?thesis by (simp add: expense_of_def)
qed

subsection \<open>The array-based aggregation\<close>

lemma add_to_entries_names:
  "map name (add_to_entries acc n e) =
     (if n \<in> set (map name acc) then map name acc else map name acc @ [n])"
  by (induction acc) auto

lemma add_to_entries_values:
  assumes "distinct (map name acc)" "g \<in> set (add_to_entries acc n e)"
  shows "(name g \<noteq> n \<and> g \<in> set acc) \<or>
         (name g = n \<and> (\<exists>g0\<in>set acc. name g0 = n \<and> value g = value g0 + e)) \<or>
         (name g = n \<and> n \<notin> set (map name acc) \<and> value g = e)"
  using assms
proof (induction acc)
  case Nil
  then show ?case by simp
next
  case (Cons a acc)
  show ?case
  proof (cases "name a = n")
    case True
    with Cons.prems(2) have "g = a\<lparr>value := value a + e\<rparr> \<or> g \<in> set acc" by simp
    then show ?thesis
    proof
      assume "g = a\<lparr>value := value a + e\<rparr>"
      then show ?thesis using True by auto
    next
      assume g: "g \<in> set acc"
      then have "name g \<in> set (map name acc)" by simp
      then have "name g \<noteq> n" using Cons.prems(1) True by auto
      then show ?thesis using g by simp
    qed
  next
    case False
    with Cons.prems(2) have "g = a \<or> g \<in> set (add_to_entries acc n e)" by simp
    then show ?thesis
    proof
      assume "g = a"
      then show ?thesis using False by simp
    next
      assume "g \<in> set (add_to_entries acc n e)"
      with Cons.IH Cons.prems(1) show ?thesis using False by auto
    qed
  qed
qed

lemma reduce_step:
  assumes n: "map name acc = first_occurrences (map category (with_expense seen))"
    and v: "\<forall>g\<in>set acc. value g = expense_of (\<lambda>u. category u = name g) seen"
    and pos: "expense t > 0"
  shows "map name (add_to_entries acc (category t) (expense t)) =
           first_occurrences (map category (with_expense (seen @ [t]))) \<and>
         (\<forall>g\<in>set (add_to_entries acc (category t) (expense t)).
            value g = expense_of (\<lambda>u. category u = name g) (seen @ [t]))"
proof (intro conjI ballI)
  let ?cs = "map category (with_expense seen)"
  have names: "set (map name acc) = set ?cs" using n by (simp only: set_first_occurrences)
  show "map name (add_to_entries acc (category t) (expense t)) =
           first_occurrences (map category (with_expense (seen @ [t])))"
    using n pos names
    by (simp add: add_to_entries_names with_expense_snoc first_occurrences_snoc del: set_map)
  fix g
  assume g: "g \<in> set (add_to_entries acc (category t) (expense t))"
  have d: "distinct (map name acc)" using n by (simp only: distinct_first_occurrences)
  from add_to_entries_values [OF d g]
  consider (other) "name g \<noteq> category t" "g \<in> set acc"
    | (old) g0 where "name g = category t" "g0 \<in> set acc" "name g0 = category t"
        "value g = value g0 + expense t"
    | (new) "name g = category t" "category t \<notin> set (map name acc)" "value g = expense t"
    by blast
  then show "value g = expense_of (\<lambda>u. category u = name g) (seen @ [t])"
  proof cases
    case other
    then show ?thesis using v by (auto simp: expense_of_snoc)
  next
    case old
    then show ?thesis using v pos by (simp add: expense_of_snoc)
  next
    case new
    from new(2) names have "category t \<notin> set ?cs" by simp
    then have "expense_of (\<lambda>u. category u = category t) seen = 0" by (rule expense_of_absent)
    then show ?thesis using new pos by (simp add: expense_of_snoc)
  qed
qed

lemma reduce_fold:
  assumes "map name acc = first_occurrences (map category (with_expense seen))"
    and "\<forall>g\<in>set acc. value g = expense_of (\<lambda>u. category u = name g) seen"
  shows "map name (foldl (\<lambda>acc t. if expense t > 0 then add_to_entries acc (category t) (expense t) else acc) acc txs) =
           first_occurrences (map category (with_expense (seen @ txs))) \<and>
         (\<forall>g\<in>set (foldl (\<lambda>acc t. if expense t > 0 then add_to_entries acc (category t) (expense t) else acc) acc txs).
            value g = expense_of (\<lambda>u. category u = name g) (seen @ txs))"
  using assms
proof (induction txs arbitrary: acc seen)
  case Nil
  then show ?case by simp
next
  case (Cons t txs)
  show ?case
  proof (cases "expense t > 0")
    case True
    from reduce_step [OF Cons.prems True]
    have "map name (add_to_entries acc (category t) (expense t)) =
            first_occurrences (map category (with_expense (seen @ [t])))"
      and "\<forall>g\<in>set (add_to_entries acc (category t) (expense t)).
            value g = expense_of (\<lambda>u. category u = name g) (seen @ [t])"
      by blast+
    from Cons.IH [OF this] show ?thesis using True by simp
  next
    case False
    have "map name acc = first_occurrences (map category (with_expense (seen @ [t])))"
      and "\<forall>g\<in>set acc. value g = expense_of (\<lambda>u. category u = name g) (seen @ [t])"
      using Cons.prems False by (simp_all add: with_expense_snoc expense_of_snoc)
    from Cons.IH [OF this] show ?thesis using False by simp
  qed
qed

text \<open>
  The array-based aggregation is right for every collection: its groups are the raw
  categories of the transactions with positive expense, in the order in which they are
  first met, each with the (exact) sum of those expenses.
\<close>

lemma categoryData_reduce_groups:
  "map name (categoryData_reduce transactions) =
     first_occurrences (map category (with_expense transactions)) \<and>
   (\<forall>g\<in>set (categoryData_reduce transactions).
      value g = expense_of (\<lambda>t. category t = name g) transactions)"
  using reduce_fold [of "[]" "[]" transactions]
  by (simp add: categoryData_reduce_def first_occurrences_def with_expense_def)

subsection \<open>The record-based aggregation\<close>

lemma group_step_records:
  assumes k: "map fst grouped = first_occurrences (map category (with_expense seen))"
    and v: "\<forall>kv\<in>set grouped. snd kv = NumberV (expense_of (\<lambda>u. category u = fst kv) seen)"
    and h: "expense t > 0 \<longrightarrow> category t \<notin> set object_prototype_keys"
  shows "map fst (group_step grouped t) = first_occurrences (map category (with_expense (seen @ [t]))) \<and>
         (\<forall>kv\<in>set (group_step grouped t).
            snd kv = NumberV (expense_of (\<lambda>u. category u = fst kv) (seen @ [t])))"
proof (cases "expense t > 0")
  case False
  then show ?thesis using k v by (simp add: group_step_def with_expense_snoc expense_of_snoc)
next
  case pos: True
  let ?c = "category t" and ?e = "expense t"
  let ?cs = "map category (with_expense seen)"
  have c: "?c \<notin> set object_prototype_keys" using h pos by simp
  then have np: "?c \<noteq> ''__proto__''" using proto_name by auto
  have keys: "fst ` set grouped = set ?cs"
  proof -
    have "fst ` set grouped = set (map fst grouped)" by simp
    then show ?thesis using k by (simp only: set_first_occurrences)
  qed
  have dist: "distinct (map fst grouped)" using k by (simp only: distinct_first_occurrences)
  show ?thesis
  proof (cases "map_of grouped ?c")
    case None
    then have g: "group_step grouped t = grouped @ [(?c, NumberV ?e)]"
      using pos np c
      by (simp add: group_step_def add_expense_def set_primitive_def get_property_def
          plus_expense_def update_absent)
    have notin: "?c \<notin> fst ` set grouped" using None by (simp add: map_of_eq_None_iff)
    then have unseen: "?c \<notin> set ?cs" using keys by simp
    have z: "expense_of (\<lambda>u. category u = ?c) seen = 0" using unseen by (rule expense_of_absent)
    have a: "map fst (group_step grouped t) = first_occurrences (map category (with_expense (seen @ [t])))"
      using g k pos unseen by (simp add: with_expense_snoc first_occurrences_snoc)
    have b: "snd kv = NumberV (expense_of (\<lambda>u. category u = fst kv) (seen @ [t]))"
      if kv: "kv \<in> set (group_step grouped t)" for kv
    proof (cases "kv = (?c, NumberV ?e)")
      case True
      then show ?thesis using z pos by (simp add: expense_of_snoc)
    next
      case False
      with kv g have in_g: "kv \<in> set grouped" by simp
      then have "fst kv \<in> fst ` set grouped" by (rule imageI)
      then have "fst kv \<noteq> ?c" using notin by metis
      then have "expense_of (\<lambda>u. category u = fst kv) (seen @ [t]) =
                 expense_of (\<lambda>u. category u = fst kv) seen"
        by (auto simp: expense_of_snoc)
      then show ?thesis using v in_g by simp
    qed
    from a b show ?thesis by blast
  next
    case (Some w)
    then have mem: "(?c, w) \<in> set grouped" by (rule map_of_SomeD)
    then have w: "w = NumberV (expense_of (\<lambda>u. category u = ?c) seen)" using v by auto
    let ?x = "expense_of (\<lambda>u. category u = ?c) seen"
    have g: "group_step grouped t = AList.update ?c (NumberV (?x + ?e)) grouped"
      using pos np Some w
      by (simp add: group_step_def add_expense_def set_primitive_def get_property_def plus_expense_def)
    have isin: "?c \<in> fst ` set grouped" using mem by (metis fst_conv image_eqI)
    then have seen_c: "?c \<in> set ?cs" using keys by simp
    have "map fst (group_step grouped t) = map fst grouped"
      using g isin by (simp add: update_keys)
    then have a: "map fst (group_step grouped t) =
        first_occurrences (map category (with_expense (seen @ [t])))"
      using k pos seen_c by (simp add: with_expense_snoc first_occurrences_snoc)
    have s: "set (group_step grouped t) = insert (?c, NumberV (?x + ?e)) {p \<in> set grouped. fst p \<noteq> ?c}"
      unfolding g using dist by (rule set_update_distinct)
    have b: "snd kv = NumberV (expense_of (\<lambda>u. category u = fst kv) (seen @ [t]))"
      if kv: "kv \<in> set (group_step grouped t)" for kv
    proof (cases "kv = (?c, NumberV (?x + ?e))")
      case True
      then show ?thesis using pos by (simp add: expense_of_snoc)
    next
      case False
      with kv s have in_g: "kv \<in> set grouped" and ne: "fst kv \<noteq> ?c" by auto
      from ne have "expense_of (\<lambda>u. category u = fst kv) (seen @ [t]) =
                    expense_of (\<lambda>u. category u = fst kv) seen"
        by (auto simp: expense_of_snoc)
      then show ?thesis using v in_g by simp
    qed
    from a b show ?thesis by blast
  qed
qed

lemma group_fold_records:
  assumes "map fst grouped = first_occurrences (map category (with_expense seen))"
    and "\<forall>kv\<in>set grouped. snd kv = NumberV (expense_of (\<lambda>u. category u = fst kv) seen)"
    and "\<forall>t\<in>set txs. expense t > 0 \<longrightarrow> category t \<notin> set object_prototype_keys"
  shows "map fst (foldl group_step grouped txs) =
           first_occurrences (map category (with_expense (seen @ txs))) \<and>
         (\<forall>kv\<in>set (foldl group_step grouped txs).
            snd kv = NumberV (expense_of (\<lambda>u. category u = fst kv) (seen @ txs)))"
  using assms
proof (induction txs arbitrary: grouped seen)
  case Nil
  then show ?case by simp
next
  case (Cons t txs)
  have h: "expense t > 0 \<longrightarrow> category t \<notin> set object_prototype_keys" using Cons.prems(3) by simp
  from group_step_records [OF Cons.prems(1) Cons.prems(2) h]
  have 1: "map fst (group_step grouped t) =
             first_occurrences (map category (with_expense (seen @ [t])))"
    and 2: "\<forall>kv\<in>set (group_step grouped t).
             snd kv = NumberV (expense_of (\<lambda>u. category u = fst kv) (seen @ [t]))"
    by blast+
  have 3: "\<forall>t\<in>set txs. expense t > 0 \<longrightarrow> category t \<notin> set object_prototype_keys"
    using Cons.prems(3) by simp
  from Cons.IH [OF 1 2 3] show ?case by simp
qed

lemma to_chart_entry_number: "snd kv = NumberV x \<Longrightarrow> to_chart_entry kv = Inr (entry_of kv)"
  by (simp add: to_chart_entry_def entry_of_def the_number_def)

text \<open>
  The record-based aggregation is right for the collections in which no transaction with
  positive expense has a category that names a property of \<open>Object.prototype\<close>: it returns
  one entry for each raw category of those transactions, with the sum of their expenses
  rounded to two decimals, sorted by descending value.
\<close>

lemma categoryData_groups:
  assumes "\<forall>t\<in>set transactions. expense t > 0 \<longrightarrow> category t \<notin> set object_prototype_keys"
  shows "\<exists>entries. categoryData transactions = Inr entries \<and>
           distinct (map name entries) \<and>
           name ` set entries = category ` set (with_expense transactions) \<and>
           (\<forall>g\<in>set entries. value g = toFixed2 (expense_of (\<lambda>t. category t = name g) transactions)) \<and>
           sorted_wrt (\<lambda>a b. value b \<le> value a) entries"
proof -
  let ?grouped = "foldl group_step [] transactions"
  let ?es = "map entry_of (Object_entries ?grouped)"
  let ?entries = "js_sort by_value_desc ?es"
  from group_fold_records [of "[]" "[]" transactions] assms
  have k: "map fst ?grouped = first_occurrences (map category (with_expense transactions))"
    and v: "\<forall>kv\<in>set ?grouped. snd kv = NumberV (expense_of (\<lambda>u. category u = fst kv) transactions)"
    by (simp_all add: first_occurrences_def with_expense_def)
  have "\<forall>kv\<in>set (Object_entries ?grouped). to_chart_entry kv = Inr (entry_of kv)"
    using v to_chart_entry_number by (simp add: set_Object_entries)
  then have m: "map_result to_chart_entry (Object_entries ?grouped) = Inr ?es"
    by (rule map_result_all)
  have r: "categoryData transactions = Inr ?entries"
    by (simp add: categoryData_def m)
  have "mset ?entries = mset ?es" by (simp add: js_sort_by_value)
  also have "\<dots> = image_mset entry_of (mset (Object_entries ?grouped))" by simp
  finally have ms: "mset ?entries = image_mset entry_of (mset ?grouped)"
    by (simp only: mset_Object_entries)
  have "mset (map name ?entries) = image_mset name (mset ?entries)" by simp
  also have "\<dots> = image_mset fst (mset ?grouped)"
    unfolding ms by (simp add: image_mset.compositionality o_def entry_of_def)
  finally have mn: "mset (map name ?entries) = mset (map fst ?grouped)" by simp
  have "distinct (map fst ?grouped)" unfolding k by (rule distinct_first_occurrences)
  then have 1: "distinct (map name ?entries)"
    using mn by (metis mset_eq_imp_distinct_iff)
  have "set (map name ?entries) = set (map fst ?grouped)"
    using mn by (metis set_mset_mset)
  then have 2: "name ` set ?entries = category ` set (with_expense transactions)"
    unfolding k by (simp add: set_first_occurrences)
  have se: "set ?entries = entry_of ` set ?grouped"
    using ms by (metis set_mset_mset set_image_mset)
  have 3: "\<forall>g\<in>set ?entries. value g = toFixed2 (expense_of (\<lambda>t. category t = name g) transactions)"
    unfolding se using v by (auto simp: entry_of_def the_number_def)
  have 4: "sorted_wrt (\<lambda>a b. value b \<le> value a) ?entries" by (rule js_sort_by_value_sorted)
  from r 1 2 3 4 show ?thesis by blast
qed

text \<open>
  C6 at concrete collections. The claim is that every transaction with positive expense is
  counted under its raw category. It holds for the array-based aggregation for every
  collection (\<open>categoryData_reduce_groups\<close>) and for the record-based aggregation when
  no category names a property of \<open>Object.prototype\<close> (\<open>categoryData_groups\<close>); for
  \<open>Food 30, Food 20, Rent 100\<close> both give \<open>Food 50\<close> and \<open>Rent 100\<close>. In the record-based
  aggregation it fails for such a name: under \<open>__proto__\<close> the expense is silently dropped,
  under \<open>constructor\<close> the aggregation throws, while the array-based aggregation keeps
  both.
\<close>

theorem categoryData_prototype_names:
  "categoryData [tx ''2024-01-05'' ''Food'' 30, tx ''2024-01-06'' ''Food'' 20, tx ''2024-01-07'' ''Rent'' 100] =
     Inr [\<lparr>name = ''Rent'', value = 100\<rparr>, \<lparr>name = ''Food'', value = 50\<rparr>] \<and>
   categoryData_reduce [tx ''2024-01-05'' ''Food'' 30, tx ''2024-01-06'' ''Food'' 20, tx ''2024-01-07'' ''Rent'' 100] =
     [\<lparr>name = ''Food'', value = 50\<rparr>, \<lparr>name = ''Rent'', value = 100\<rparr>] \<and>
   categoryData [tx ''2024-01-05'' ''__proto__'' 30] = Inr [] \<and>
   categoryData [tx ''2024-01-05'' ''constructor'' 30] = Inl TypeError \<and>
   categoryData_reduce [tx ''2024-01-05'' ''__proto__'' 30] = [\<lparr>name = ''__proto__'', value = 30\<rparr>] \<and>
   categoryData_reduce [tx ''2024-01-05'' ''constructor'' 30] = [\<lparr>name = ''constructor'', value = 30\<rparr>]"
  by code_simp

subsection \<open>Selection of the top entries\<close>

lemma group_step_keys:
  "map fst (group_step grouped t) =
     (if expense t > 0 \<and> category t \<noteq> ''__proto__'' \<and> category t \<notin> set (map fst grouped)
      then map fst grouped @ [category t] else map fst grouped)"
  by (simp add: group_step_def add_expense_def set_primitive_def update_keys)

lemma group_fold_keys:
  assumes "map fst grouped =
     first_occurrences (filter (\<lambda>c. c \<noteq> ''__proto__'') (map category (with_expense seen)))"
  shows "map fst (foldl group_step grouped txs) =
     first_occurrences (filter (\<lambda>c. c \<noteq> ''__proto__'') (map category (with_expense (seen @ txs))))"
  using assms
proof (induction txs arbitrary: grouped seen)
  case Nil
  then show ?case by simp
next
  case (Cons t txs)
  have "map fst (group_step grouped t) =
     first_occurrences (filter (\<lambda>c. c \<noteq> ''__proto__'') (map category (with_expense (seen @ [t]))))"
    using Cons.prems
    by (simp add: group_step_keys with_expense_snoc first_occurrences_snoc set_first_occurrences
        del: set_map set_filter)
  from Cons.IH [OF this] show ?case by simp
qed

lemma grouped_keys:
  "map fst (foldl group_step [] transactions) =
     first_occurrences (filter (\<lambda>c. c \<noteq> ''__proto__'') (map category (with_expense transactions)))"
  using group_fold_keys [of "[]" "[]" transactions]
  by (simp add: first_occurrences_def with_expense_def)

lemma insort_key_map_fst:
  "map fst (insort_key (\<lambda>kv. f (fst kv)) x ys) = insort_key f (fst x) (map fst ys)"
  by (induction ys) simp_all

lemma sort_key_map_fst: "map fst (sort_key (\<lambda>kv. f (fst kv)) xs) = sort_key f (map fst xs)"
  by (induction xs) (simp_all add: insort_key_map_fst)

lemma Object_entries_keys: "map fst (Object_entries obj) = entries_order (map fst obj)"
  by (simp add: Object_entries_def entries_order_def sort_key_map_fst filter_map o_def)

lemma map_result_names:
  "map_result to_chart_entry kvs = Inr es \<Longrightarrow> map name es = map fst kvs"
proof (induction kvs arbitrary: es)
  case Nil
  then show ?case by simp
next
  case (Cons kv kvs)
  from Cons.prems obtain e es' where e: "to_chart_entry kv = Inr e"
    and r: "map_result to_chart_entry kvs = Inr es'" and es: "es = e # es'"
    by (auto split: sum.splits)
  from e have "name e = fst kv" by (auto simp: to_chart_entry_def split: js_value.splits)
  with Cons.IH [OF r] es show ?case by simp
qed

lemma categoryData_sorted_entries:
  assumes "categoryData transactions = Inr entries"
  shows "\<exists>es. entries = js_sort by_value_desc es \<and>
           map name es = entries_order (first_occurrences
             (filter (\<lambda>c. c \<noteq> ''__proto__'') (map category (with_expense transactions))))"
proof -
  let ?grouped = "foldl group_step [] transactions"
  from assms obtain es where m: "map_result to_chart_entry (Object_entries ?grouped) = Inr es"
    and e: "entries = js_sort by_value_desc es"
    by (auto simp: categoryData_def split: sum.splits)
  have "map name es = map fst (Object_entries ?grouped)" using m by (rule map_result_names)
  then have "map name es = entries_order (first_occurrences
             (filter (\<lambda>c. c \<noteq> ''__proto__'') (map category (with_expense transactions))))"
    by (simp add: Object_entries_keys grouped_keys)
  with e show ?thesis by blast
qed

lemma top_n_of_list:
  "length (topExpenses gs) = min 5 (length gs) \<and>
   length (bar_chart_data (js_sort by_value_desc gs)) = min 10 (length gs) \<and>
   (distinct (map name gs) \<longrightarrow> length gs = card (name ` set gs)) \<and>
   sorted_wrt (\<lambda>a b. value b \<le> value a) (topExpenses gs) \<and>
   sorted_wrt (\<lambda>a b. value b \<le> value a) (bar_chart_data (js_sort by_value_desc gs)) \<and>
   set (topExpenses gs) \<subseteq> set gs \<and>
   set (bar_chart_data (js_sort by_value_desc gs)) \<subseteq> set gs \<and>
   (\<exists>k. filter (\<lambda>g. value g = v) (topExpenses gs) = take k (filter (\<lambda>g. value g = v) gs)) \<and>
   (\<exists>k. filter (\<lambda>g. value g = v) (bar_chart_data (js_sort by_value_desc gs)) =
          take k (filter (\<lambda>g. value g = v) gs))"
proof -
  have d: "distinct (map name gs) \<longrightarrow> length gs = card (name ` set gs)"
    using distinct_card [of "map name gs"] by simp
  show ?thesis
    unfolding topExpenses_def bar_chart_data_def
    using top_sorted_take [of 5 gs v] top_sorted_take [of 10 gs v] d by blast
qed

lemma length_first_occurrences: "length (first_occurrences xs) = card (set xs)"
  using distinct_card [of "first_occurrences xs"]
  by (simp add: distinct_first_occurrences set_first_occurrences)

lemma length_entries_order: "length (entries_order ks) = length ks"
  using sum_length_filter_compl [of isArrayIndex ks] by (simp add: entries_order_def)

lemma top5_count:
  "length (topExpenses (categoryData_reduce transactions)) =
     min 5 (card (category ` set (with_expense transactions)))"
proof -
  have "length (categoryData_reduce transactions) = length (map name (categoryData_reduce transactions))"
    by simp
  also have "\<dots> = card (set (map category (with_expense transactions)))"
    using categoryData_reduce_groups [of transactions] by (simp only: length_first_occurrences)
  finally have "length (categoryData_reduce transactions) =
      card (category ` set (with_expense transactions))" by simp
  then show ?thesis by (simp add: topExpenses_def js_sort_by_value min.commute)
qed

lemma top10_count:
  assumes "categoryData transactions = Inr entries"
  shows "length (bar_chart_data entries) =
     min 10 (card (category ` set (with_expense transactions) - {''__proto__''}))"
proof -
  let ?ks = "first_occurrences
     (filter (\<lambda>c. c \<noteq> ''__proto__'') (map category (with_expense transactions)))"
  from categoryData_sorted_entries [OF assms] obtain es where
    e: "entries = js_sort by_value_desc es" and n: "map name es = entries_order ?ks" by blast
  have "length entries = length (map name es)" using e by (simp add: js_sort_by_value)
  also have "\<dots> = length ?ks" using n by (simp only: length_entries_order)
  also have "\<dots> = card (set (filter (\<lambda>c. c \<noteq> ''__proto__'') (map category (with_expense transactions))))"
    by (rule length_first_occurrences)
  also have "set (filter (\<lambda>c. c \<noteq> ''__proto__'') (map category (with_expense transactions))) =
      category ` set (with_expense transactions) - {''__proto__''}"
    by auto
  finally show ?thesis by (simp add: bar_chart_data_def min.commute)
qed

text \<open>
  C7, as stated, fails for the order of equal values in the top ten. The list that is
  sorted there is \<open>Object.entries\<close> of the grouping record, and that lists a category whose
  name is an array index before the others: \<open>Food\<close> is met before \<open>7\<close>, both sum to 10,
  and \<open>7\<close> comes out first.
\<close>

theorem top_n_tie_order_counterexample:
  "categoryData [tx ''2024-01-05'' ''Food'' 10, tx ''2024-01-06'' ''7'' 10] =
     Inr [\<lparr>name = ''7'', value = 10\<rparr>, \<lparr>name = ''Food'', value = 10\<rparr>] \<and>
   bar_chart_data [\<lparr>name = ''7'', value = 10\<rparr>, \<lparr>name = ''Food'', value = 10\<rparr>] =
     [\<lparr>name = ''7'', value = 10\<rparr>, \<lparr>name = ''Food'', value = 10\<rparr>] \<and>
   first_occurrences (map category
     (with_expense [tx ''2024-01-05'' ''Food'' 10, tx ''2024-01-06'' ''7'' 10])) = [''Food'', ''7'']"
  by code_simp

text \<open>
  C7, amended: for every list of groups, the selection of the top five (\<open>topExpenses\<close>) and
  of the top ten (the first ten of the sorted chart data) has \<open>min N (number of groups)\<close>
  entries, so never more than there are distinct groups; it is sorted by descending value;
  it contains only groups of the list; and the groups of one value appear in it in the order
  in which the list that is sorted holds them. For the top five that list is the array
  built by \<open>reduce\<close>, which holds the categories in the order in which the transactions
  first meet them. For the top ten it is \<open>Object.entries\<close> of the grouping record: the
  categories that are array indices first, in ascending numeric order, then the others in
  the order in which the transactions first meet them.
\<close>

theorem top_n_selection:
  "length (topExpenses gs) = min 5 (length gs) \<and>
   length (bar_chart_data (js_sort by_value_desc gs)) = min 10 (length gs) \<and>
   (distinct (map name gs) \<longrightarrow> length gs = card (name ` set gs)) \<and>
   sorted_wrt (\<lambda>a b. value b \<le> value a) (topExpenses gs) \<and>
   sorted_wrt (\<lambda>a b. value b \<le> value a) (bar_chart_data (js_sort by_value_desc gs)) \<and>
   set (topExpenses gs) \<subseteq> set gs \<and>
   set (bar_chart_data (js_sort by_value_desc gs)) \<subseteq> set gs \<and>
   (\<exists>k. filter (\<lambda>g. value g = v) (topExpenses gs) = take k (filter (\<lambda>g. value g = v) gs)) \<and>
   (\<exists>k. filter (\<lambda>g. value g = v) (bar_chart_data (js_sort by_value_desc gs)) =
          take k (filter (\<lambda>g. value g = v) gs)) \<and>
   map name (categoryData_reduce transactions) =
     first_occurrences (map category (with_expense transactions)) \<and>
   length (topExpenses (categoryData_reduce transactions)) =
     min 5 (card (category ` set (with_expense transactions))) \<and>
   (\<forall>entries. categoryData transactions = Inr entries \<longrightarrow>
      length (bar_chart_data entries) =
        min 10 (card (category ` set (with_expense transactions) - {''__proto__''})) \<and>
      (\<exists>es. entries = js_sort by_value_desc es \<and>
            map name es = entries_order (first_occurrences
              (filter (\<lambda>c. c \<noteq> ''__proto__'') (map category (with_expense transactions))))))"
proof -
  have a: "map name (categoryData_reduce transactions) =
     first_occurrences (map category (with_expense transactions))"
    using categoryData_reduce_groups [of transactions] by blast
  have b: "\<forall>entries. categoryData transactions = Inr entries \<longrightarrow>
      length (bar_chart_data entries) =
        min 10 (card (category ` set (with_expense transactions) - {''__proto__''})) \<and>
      (\<exists>es. entries = js_sort by_value_desc es \<and>
            map name es = entries_order (first_occurrences
              (filter (\<lambda>c. c \<noteq> ''__proto__'') (map category (with_expense transactions)))))"
    using top10_count categoryData_sorted_entries by blast
  show ?thesis
    using top_n_of_list [of gs v] a top5_count [of transactions] b
    by (intro conjI) blast+
qed

theorem top_n_selection_witness:
  "distinct (map name [\<lparr>name = ''A'', value = 10\<rparr>, \<lparr>name = ''B'', value = 30\<rparr>, \<lparr>name = ''C'', value = 10\<rparr>]) \<and>
   card (name ` set [\<lparr>name = ''A'', value = 10\<rparr>, \<lparr>name = ''B'', value = 30\<rparr>, \<lparr>name = ''C'', value = 10\<rparr>]) = 3 \<and>
   topExpenses [\<lparr>name = ''A'', value = 10\<rparr>, \<lparr>name = ''B'', value = 30\<rparr>, \<lparr>name = ''C'', value = 10\<rparr>] =
     [\<lparr>name = ''B'', value = 30\<rparr>, \<lparr>name = ''A'', value = 10\<rparr>, \<lparr>name = ''C'', value = 10\<rparr>] \<and>
   categoryData [tx ''2024-01-05'' ''Food'' 10, tx ''2024-01-06'' ''7'' 10] =
     Inr [\<lparr>name = ''7'', value = 10\<rparr>, \<lparr>name = ''Food'', value = 10\<rparr>] \<and>
   entries_order (first_occurrences (filter (\<lambda>c. c \<noteq> ''__proto__'')
     (map category (with_expense [tx ''2024-01-05'' ''Food'' 10, tx ''2024-01-06'' ''7'' 10])))) =
     [''7'', ''Food''] \<and>
   length (bar_chart_data [\<lparr>name = ''7'', value = 10\<rparr>, \<lparr>name = ''Food'', value = 10\<rparr>]) =
     min 10 (card (category ` set (with_expense [tx ''2024-01-05'' ''Food'' 10, tx ''2024-01-06'' ''7'' 10]) -
       {''__proto__''}))"
proof -
  let ?gs = "[\<lparr>name = ''A'', value = 10\<rparr>, \<lparr>name = ''B'', value = 30\<rparr>, \<lparr>name = ''C'', value = 10\<rparr>]"
  let ?x = "[tx ''2024-01-05'' ''Food'' 10, tx ''2024-01-06'' ''7'' 10]"
  let ?es = "[\<lparr>name = ''7'', value = 10\<rparr>, \<lparr>name = ''Food'', value = 10\<rparr>]"
  have d: "distinct (map name ?gs)" by simp
  have t: "topExpenses ?gs =
     [\<lparr>name = ''B'', value = 30\<rparr>, \<lparr>name = ''A'', value = 10\<rparr>, \<lparr>name = ''C'', value = 10\<rparr>]"
    by code_simp
  have c: "categoryData ?x = Inr ?es" by code_simp
  have o: "entries_order (first_occurrences (filter (\<lambda>c. c \<noteq> ''__proto__'')
     (map category (with_expense ?x)))) = [''7'', ''Food'']"
    by code_simp
  have k: "card (name ` set ?gs) = 3"
    using top_n_selection [of ?gs 10 ?x] d by simp
  have l: "length (bar_chart_data ?es) =
     min 10 (card (category ` set (with_expense ?x) - {''__proto__''}))"
    using top_n_selection [of ?gs 10 ?x] c by blast
  show ?thesis using d t c o k l by blast
qed


section \<open>Properties of the monthly trend\<close>

declare show_nat.simps [simp del]

lemma decimal_value_snoc: "decimal_value (xs @ [c]) = 10 * decimal_value xs + digit_value c"
  by (simp add: decimal_value_def)

lemma digit_value_char: "k < 10 \<Longrightarrow> digit_value (char_of (48 + k)) = k"
  by (simp add: digit_value_def)

lemma decimal_show_nat: "decimal_value (show_nat n) = n"
proof (induction n rule: show_nat.induct)
  case (1 n)
  show ?case
  proof (cases "n < 10")
    case True
    then show ?thesis
      by (subst show_nat.simps) (simp add: decimal_value_def digit_value_char)
  next
    case False
    then have "decimal_value (show_nat n) = 10 * decimal_value (show_nat (n div 10)) + n mod 10"
      by (subst show_nat.simps) (simp add: decimal_value_snoc digit_value_char)
    then show ?thesis using 1 False by simp
  qed
qed

lemma foldl_zeros: "foldl (\<lambda>n c. 10 * n + digit_value c) 0 (replicate k (CHR ''0'')) = 0"
  by (induction k) (simp_all add: digit_value_def)

lemma decimal_leading_zeros: "decimal_value (replicate k (CHR ''0'') @ s) = decimal_value s"
  by (simp add: decimal_value_def foldl_zeros)

lemma decimal_year_text: "decimal_value (addLeadingZeros4 (show_nat y)) = y"
  by (simp add: addLeadingZeros4_def decimal_leading_zeros decimal_show_nat)

lemma month_names_length: "i < 12 \<Longrightarrow> length (month_names ! i) = 3"
proof -
  have "list_all (\<lambda>s. length s = 3) month_names" by (simp add: month_names_def)
  moreover have "length month_names = 12" by (simp add: month_names_def)
  ultimately show "i < 12 \<Longrightarrow> length (month_names ! i) = 3" by (simp add: list_all_length)
qed

lemma month_names_distinct: "distinct month_names"
  by (simp add: month_names_def)

lemma month_names_letter: "i < 12 \<Longrightarrow> month_names ! i \<noteq> [] \<and> \<not> isDigit (hd (month_names ! i))"
proof -
  have "list_all (\<lambda>s. s \<noteq> [] \<and> \<not> isDigit (hd s)) month_names"
    by (simp add: month_names_def isDigit_def)
  moreover have "length month_names = 12" by (simp add: month_names_def)
  ultimately show "i < 12 \<Longrightarrow> month_names ! i \<noteq> [] \<and> \<not> isDigit (hd (month_names ! i))"
    by (simp add: list_all_length)
qed

lemma month_label_inj:
  assumes "1 \<le> m" "m \<le> 12" "1 \<le> m'" "m' \<le> 12" "month_label y m = month_label y' m'"
  shows "y = y' \<and> m = m'"
proof -
  have i: "m - 1 < 12" "m' - 1 < 12" using assms by simp_all
  have l: "length (month_names ! (m - 1)) = length (month_names ! (m' - 1))"
    using i by (simp add: month_names_length)
  from assms(5) have e: "month_names ! (m - 1) = month_names ! (m' - 1)"
    and r: "'' '' @ addLeadingZeros4 (show_nat y) = '' '' @ addLeadingZeros4 (show_nat y')"
    using l by (simp_all add: month_label_def)
  have "m - 1 = m' - 1"
    using e i month_names_distinct by (simp add: nth_eq_iff_index_eq month_names_def)
  then have m: "m = m'" using assms(1) assms(3) by simp
  from r have "addLeadingZeros4 (show_nat y) = addLeadingZeros4 (show_nat y')" by simp
  then have "decimal_value (addLeadingZeros4 (show_nat y)) = decimal_value (addLeadingZeros4 (show_nat y'))"
    by simp
  then have "y = y'" by (simp add: decimal_year_text)
  with m show ?thesis by simp
qed

lemma month_label_space: "CHR '' '' \<in> set (month_label y m)"
  by (simp add: month_label_def)

lemma month_label_not_prototype: "month_label y m \<notin> set object_prototype_keys"
proof -
  have "list_all (\<lambda>k. CHR '' '' \<notin> set k) object_prototype_keys"
    by (simp add: object_prototype_keys_def)
  then show ?thesis using month_label_space [of y m] by (auto simp: list_all_iff)
qed

lemma month_label_not_index: "1 \<le> m \<Longrightarrow> m \<le> 12 \<Longrightarrow> \<not> isArrayIndex (month_label y m)"
proof -
  assume "1 \<le> m" "m \<le> 12"
  then have i: "m - 1 < 12" by simp
  from month_names_letter [OF i] obtain c cs where n: "month_names ! (m - 1) = c # cs" "\<not> isDigit c"
    by (cases "month_names ! (m - 1)") auto
  then show ?thesis by (simp add: isArrayIndex_def month_label_def)
qed

lemma length_split_on: "length (split_on p s) = 1 + length (filter p s)"
proof (induction s)
  case Nil
  then show ?case by simp
next
  case (Cons c s)
  then show ?case using split_on_not_Nil [of p s] by (cases "split_on p s") auto
qed

lemma parseISO_month_label: "parseISO_getTime (month_label y m @ '' 01'') = Inr NaN"
  by (simp add: parseISO_getTime_def length_split_on month_label_def)

lemma digit_not_dash: "isDigit c \<Longrightarrow> c \<noteq> CHR ''-''"
  by (auto simp: isDigit_def)

lemma date_numbers_canonical:
  assumes "is_canonical_date d"
  shows "date_numbers d = Inr (year_of d, month_of d, day_of d)"
proof -
  let ?y = "take 4 d" and ?m = "take 2 (drop 5 d)" and ?dd = "drop 8 d"
  have l: "length d = 10" and dy: "list_all isDigit ?y" and dm: "list_all isDigit ?m"
    and ddd: "list_all isDigit ?dd"
    using assms by (simp_all add: is_canonical_date_def)
  have parts: "d = ?y @ CHR ''-'' # ?m @ CHR ''-'' # ?dd" using assms by (rule canonical_parts)
  have ny: "\<forall>x\<in>set ?y. \<not> x = CHR ''-''" using dy digit_not_dash by (auto simp: list_all_iff)
  have nm: "\<forall>x\<in>set ?m. \<not> x = CHR ''-''" using dm digit_not_dash by (auto simp: list_all_iff)
  have nd: "\<forall>x\<in>set ?dd. \<not> x = CHR ''-''" using ddd digit_not_dash by (auto simp: list_all_iff)
  have "split_on (\<lambda>c. c = CHR ''-'') (?y @ CHR ''-'' # ?m @ CHR ''-'' # ?dd) = [?y, ?m, ?dd]"
    using ny nm nd by (simp add: split_on_sep split_on_no_sep)
  then have sp: "split_on (\<lambda>c. c = CHR ''-'') d = [?y, ?m, ?dd]" using parts by simp
  have "is_number_text ?y" "is_number_text ?m" "is_number_text ?dd"
    using l dy dm ddd by (auto simp: is_number_text_def)
  then show ?thesis by (simp add: date_numbers_def sp year_of_def month_of_def day_of_def)
qed

lemma monthKey_store_date:
  assumes "is_store_date d"
  shows "monthKey_of d = Inr (month_label_of d)"
proof -
  have c: "is_canonical_date d" and y: "100 \<le> year_of d" and m: "1 \<le> month_of d" "month_of d \<le> 12"
    and dd: "1 \<le> day_of d" "day_of d \<le> days_in_month (year_of d) (month_of d - 1)"
    using assms by (simp_all add: is_store_date_def)
  have n: "nat (int (month_of d) - 1) = month_of d - 1" by simp
  have "new_Date (year_of d) (int (month_of d) - 1) (day_of d) =
          Inr \<lparr>fullYear = year_of d, monthIndex = month_of d - 1, dayOfMonth = day_of d\<rparr>"
    using y m dd by (simp add: new_Date_def n)
  then show ?thesis
    by (simp add: monthKey_of_def date_numbers_canonical [OF c] format_MMM_yyyy_def
        month_label_of_def month_label_def)
qed

lemma foldl_js_plus:
  "list_all (\<lambda>kv. snd kv \<noteq> StringV) es \<Longrightarrow>
     foldl js_plus (NumberV a) (map snd es) = NumberV (a + sum_list (map (\<lambda>kv. the_number (snd kv)) es))"
proof (induction es arbitrary: a)
  case Nil
  then show ?case by simp
next
  case (Cons kv es)
  then obtain x where x: "snd kv = NumberV x" by (cases "snd kv") auto
  have "foldl js_plus (NumberV a) (map snd (kv # es)) = foldl js_plus (NumberV (a + x)) (map snd es)"
    using x by (simp add: js_plus_def)
  also have "\<dots> = NumberV (a + x + sum_list (map (\<lambda>kv. the_number (snd kv)) es))"
    using Cons by simp
  finally show ?case using x by (simp add: the_number_def add.assoc)
qed

lemma sum_values_numbers:
  assumes "all_numbers cats"
  shows "sum_values cats = NumberV (numbers_sum cats)"
proof -
  have a: "list_all (\<lambda>kv. snd kv \<noteq> StringV) (Object_entries cats)"
    using assms by (simp add: all_numbers_def list_all_iff set_Object_entries)
  have "sum_list (map (\<lambda>kv. the_number (snd kv)) (Object_entries cats)) =
        sum_mset (image_mset (\<lambda>kv. the_number (snd kv)) (mset (Object_entries cats)))"
    by (metis mset_map sum_mset_sum_list)
  also have "\<dots> = sum_mset (image_mset (\<lambda>kv. the_number (snd kv)) (mset cats))"
    by (simp add: mset_Object_entries)
  also have "\<dots> = sum_list (map (\<lambda>kv. the_number (snd kv)) cats)"
    by (metis mset_map sum_mset_sum_list)
  finally have "sum_list (map (\<lambda>kv. the_number (snd kv)) (Object_entries cats)) = numbers_sum cats"
    by (simp add: numbers_sum_def)
  then show ?thesis using foldl_js_plus [OF a, of 0] by (simp add: sum_values_def)
qed

lemma to_bucket_label:
  assumes "all_numbers cats"
  shows "to_bucket (month_label y m, cats) = Inr (bucket_of (month_label y m, cats))"
  using assms by (simp add: to_bucket_def sum_values_numbers parseISO_month_label bucket_of_def)

lemma js_sort_all_NaN:
  "\<forall>b\<in>set bs. sortDate b = NaN \<Longrightarrow> js_sort by_sortDate bs = bs"
proof (induction bs)
  case Nil
  then show ?case by simp
next
  case (Cons b bs)
  then have s: "js_sort by_sortDate bs = bs" by simp
  show ?case
  proof (cases bs)
    case Nil
    then show ?thesis by simp
  next
    case (Cons b' bs')
    have "not_after (by_sortDate b b')"
      using Cons.prems by (simp add: by_sortDate_def js_minus_def not_after_def)
    then show ?thesis using s Cons by simp
  qed
qed

lemma expense_of_unseen:
  "k \<notin> set (map (\<lambda>t. month_label_of (date t)) (with_expense seen)) \<Longrightarrow>
     expense_of (\<lambda>t. month_label_of (date t) = k) seen = 0"
proof -
  assume "k \<notin> set (map (\<lambda>t. month_label_of (date t)) (with_expense seen))"
  then have "filter (\<lambda>t. month_label_of (date t) = k) (with_expense seen) = []"
    by (auto simp: filter_empty_conv)
  then show ?thesis by (simp add: expense_of_def)
qed

lemma month_records_keys:
  "month_records acc seen \<Longrightarrow>
     fst ` set acc = set (map (\<lambda>t. month_label_of (date t)) (with_expense seen)) \<and>
     distinct (map fst acc)"
proof -
  assume m: "month_records acc seen"
  then have e: "map fst acc = first_occurrences (map (\<lambda>t. month_label_of (date t)) (with_expense seen))"
    by (simp add: month_records_def)
  have "fst ` set acc = set (map fst acc)" by simp
  with e show ?thesis by (simp only: set_first_occurrences distinct_first_occurrences simp_thms)
qed

lemma monthly_step_skip:
  assumes "month_records acc seen" "\<not> expense t > 0"
  shows "monthly_step acc t = Inr acc \<and> month_records acc (seen @ [t])"
  using assms by (simp add: monthly_step_def month_records_def with_expense_snoc expense_of_snoc)

lemma monthly_step_new:
  assumes inv: "month_records acc seen" and pos: "expense t > 0"
    and d: "is_store_date (date t)" and c: "category t \<notin> set object_prototype_keys"
    and none: "map_of acc (month_label_of (date t)) = None"
  shows "\<exists>acc'. monthly_step acc t = Inr acc' \<and> month_records acc' (seen @ [t])"
proof -
  let ?key = "\<lambda>t. month_label_of (date t)"
  let ?k = "month_label_of (date t)"
  let ?new = "add_expense [] (category t) (expense t)"
  let ?ks = "map ?key (with_expense seen)"
  have np: "?k \<notin> set object_prototype_keys"
    by (simp add: month_label_of_def month_label_not_prototype)
  have step: "monthly_step acc t = Inr (acc @ [(?k, ?new)])"
    using pos none np
    by (simp add: monthly_step_def monthKey_store_date [OF d] get_property_def update_absent)
  have keys: "fst ` set acc = set ?ks" using month_records_keys [OF inv] by simp
  have "?k \<notin> fst ` set acc" using none by (simp add: map_of_eq_None_iff)
  then have unseen: "?k \<notin> set ?ks" using keys by simp
  have a: "map fst (acc @ [(?k, ?new)]) = first_occurrences (map ?key (with_expense (seen @ [t])))"
    using inv pos unseen by (simp add: month_records_def with_expense_snoc first_occurrences_snoc)
  have new: "all_numbers ?new \<and> numbers_sum ?new = expense_of (\<lambda>u. ?key u = ?k) (seen @ [t])"
    using add_expense_empty [OF c, of "expense t"] pos expense_of_unseen [OF unseen]
    by (simp add: expense_of_snoc)
  have old: "all_numbers (snd kv) \<and> numbers_sum (snd kv) = expense_of (\<lambda>u. ?key u = fst kv) (seen @ [t])"
    if kv: "kv \<in> set acc" for kv
  proof -
    have "fst kv \<in> fst ` set acc" using kv by (rule imageI)
    then have "fst kv \<noteq> ?k" using \<open>?k \<notin> fst ` set acc\<close> by metis
    then have "expense_of (\<lambda>u. ?key u = fst kv) (seen @ [t]) = expense_of (\<lambda>u. ?key u = fst kv) seen"
      by (auto simp: expense_of_snoc)
    then show ?thesis using inv kv by (simp add: month_records_def)
  qed
  have "month_records (acc @ [(?k, ?new)]) (seen @ [t])"
    unfolding month_records_def using a new old by auto
  with step show ?thesis by blast
qed

lemma monthly_step_old:
  assumes inv: "month_records acc seen" and pos: "expense t > 0"
    and d: "is_store_date (date t)" and c: "category t \<notin> set object_prototype_keys"
    and some: "map_of acc (month_label_of (date t)) = Some cats"
  shows "\<exists>acc'. monthly_step acc t = Inr acc' \<and> month_records acc' (seen @ [t])"
proof -
  let ?key = "\<lambda>t. month_label_of (date t)"
  let ?k = "month_label_of (date t)"
  let ?new = "add_expense cats (category t) (expense t)"
  let ?ks = "map ?key (with_expense seen)"
  let ?acc' = "AList.update ?k ?new acc"
  have step: "monthly_step acc t = Inr ?acc'"
    using pos some by (simp add: monthly_step_def monthKey_store_date [OF d] get_property_def)
  have keys: "fst ` set acc = set ?ks" and dist: "distinct (map fst acc)"
    using month_records_keys [OF inv] by simp_all
  have mem: "(?k, cats) \<in> set acc" using some by (rule map_of_SomeD)
  then have "?k \<in> fst ` set acc" by (metis fst_conv image_eqI)
  then have seenk: "?k \<in> set ?ks" using keys by simp
  have "map fst ?acc' = map fst acc"
    using \<open>?k \<in> fst ` set acc\<close> by (simp add: update_keys)
  then have a: "map fst ?acc' = first_occurrences (map ?key (with_expense (seen @ [t])))"
    using inv pos seenk by (simp add: month_records_def with_expense_snoc first_occurrences_snoc)
  have cats: "all_numbers cats" "numbers_sum cats = expense_of (\<lambda>u. ?key u = ?k) seen"
    using inv mem by (auto simp: month_records_def)
  have new: "all_numbers ?new \<and> numbers_sum ?new = expense_of (\<lambda>u. ?key u = ?k) (seen @ [t])"
    using add_expense_numbers [OF c cats(1), of "expense t"] cats(2) pos
    by (simp add: expense_of_snoc)
  have s: "set ?acc' = insert (?k, ?new) {p \<in> set acc. fst p \<noteq> ?k}"
    using dist by (rule set_update_distinct)
  have all: "all_numbers (snd kv) \<and> numbers_sum (snd kv) = expense_of (\<lambda>u. ?key u = fst kv) (seen @ [t])"
    if kv: "kv \<in> set ?acc'" for kv
  proof (cases "kv = (?k, ?new)")
    case True
    then show ?thesis using new by simp
  next
    case False
    with kv s have in_acc: "kv \<in> set acc" and ne: "fst kv \<noteq> ?k" by auto
    from ne have "expense_of (\<lambda>u. ?key u = fst kv) (seen @ [t]) = expense_of (\<lambda>u. ?key u = fst kv) seen"
      by (auto simp: expense_of_snoc)
    then show ?thesis using inv in_acc by (simp add: month_records_def)
  qed
  have "month_records ?acc' (seen @ [t])"
    unfolding month_records_def using a all by blast
  with step show ?thesis by blast
qed

lemma monthly_step_inv:
  assumes "month_records acc seen"
    and "expense t > 0 \<longrightarrow> is_store_date (date t) \<and> category t \<notin> set object_prototype_keys"
  shows "\<exists>acc'. monthly_step acc t = Inr acc' \<and> month_records acc' (seen @ [t])"
proof (cases "expense t > 0")
  case False
  then show ?thesis using monthly_step_skip [OF assms(1)] by blast
next
  case True
  with assms(2) have d: "is_store_date (date t)" and c: "category t \<notin> set object_prototype_keys"
    by simp_all
  show ?thesis
  proof (cases "map_of acc (month_label_of (date t))")
    case None
    then show ?thesis using monthly_step_new [OF assms(1) True d c] by blast
  next
    case (Some cats)
    then show ?thesis using monthly_step_old [OF assms(1) True d c] by blast
  qed
qed

lemma forEach_monthly_inv:
  assumes "month_records acc seen"
    and "\<forall>t\<in>set txs. expense t > 0 \<longrightarrow> is_store_date (date t) \<and> category t \<notin> set object_prototype_keys"
  shows "\<exists>acc'. forEach_result monthly_step txs acc = Inr acc' \<and> month_records acc' (seen @ txs)"
  using assms
proof (induction txs arbitrary: acc seen)
  case Nil
  then show ?case by simp
next
  case (Cons t txs)
  from Cons.prems obtain acc1 where 1: "monthly_step acc t = Inr acc1"
    and i1: "month_records acc1 (seen @ [t])"
    using monthly_step_inv [of acc seen t] by auto
  from Cons.IH [OF i1] Cons.prems(2) obtain acc' where
    "forEach_result monthly_step txs acc1 = Inr acc'" "month_records acc' ((seen @ [t]) @ txs)"
    by auto
  with 1 show ?case by simp
qed

lemma month_records_empty: "month_records [] []"
  by (simp add: month_records_def first_occurrences_def with_expense_def)

lemma store_date_label:
  "is_store_date d \<Longrightarrow> \<exists>y m. month_label_of d = month_label y m \<and> 1 \<le> m \<and> m \<le> 12"
  by (auto simp: is_store_date_def month_label_of_def)

lemma monthlyData_from_records:
  assumes h: "\<forall>t\<in>set txs. expense t > 0 \<longrightarrow> is_store_date (date t) \<and> category t \<notin> set object_prototype_keys"
  shows "\<exists>acc. month_records acc txs \<and> monthlyData Monthly txs = Inr (map bucket_of acc)"
proof -
  from forEach_monthly_inv [OF month_records_empty h] obtain acc where
    f: "forEach_result monthly_step txs [] = Inr acc" and inv: "month_records acc txs"
    by auto
  have keys: "fst ` set acc = set (map (\<lambda>t. month_label_of (date t)) (with_expense txs))"
    using month_records_keys [OF inv] by simp
  have lab: "\<exists>y m. fst kv = month_label y m \<and> 1 \<le> m \<and> m \<le> 12" if kv: "kv \<in> set acc" for kv
  proof -
    have "fst kv \<in> fst ` set acc" using kv by (rule imageI)
    with keys obtain t where t: "t \<in> set (with_expense txs)" "fst kv = month_label_of (date t)"
      by auto
    from t(1) have "t \<in> set txs" "expense t > 0" by (simp_all add: with_expense_def)
    with h have "is_store_date (date t)" by blast
    with t(2) show ?thesis using store_date_label by metis
  qed
  have "\<forall>kv\<in>set acc. \<not> isArrayIndex (fst kv)"
    using lab month_label_not_index by metis
  then have e: "Object_entries acc = acc" by (rule Object_entries_no_index)
  have tb: "to_bucket kv = Inr (bucket_of kv)" if kv: "kv \<in> set acc" for kv
  proof -
    from lab [OF kv] obtain y m where l: "fst kv = month_label y m" by blast
    have "all_numbers (snd kv)" using inv kv by (simp add: month_records_def)
    then have "to_bucket (month_label y m, snd kv) = Inr (bucket_of (month_label y m, snd kv))"
      by (rule to_bucket_label)
    with l show ?thesis by (metis prod.collapse)
  qed
  then have m: "map_result to_bucket acc = Inr (map bucket_of acc)"
    by (intro map_result_all) blast
  have "\<forall>b\<in>set (map bucket_of acc). sortDate b = NaN" by (auto simp: bucket_of_def)
  then have s: "js_sort by_sortDate (map bucket_of acc) = map bucket_of acc"
    by (rule js_sort_all_NaN)
  have "monthlyData Monthly txs = Inr (map bucket_of acc)"
    by (simp add: monthlyData_def f e m s)
  with inv show ?thesis by blast
qed

lemma calendar_month_count:
  assumes "\<forall>t\<in>A. is_store_date (date t)"
  shows "card ((\<lambda>t. month_label_of (date t)) ` A) = card ((\<lambda>t. calendar_month (date t)) ` A)"
proof -
  let ?cm = "\<lambda>t. calendar_month (date t)"
  let ?L = "\<lambda>p. month_label (fst p) (snd p)"
  have i: "inj_on ?L (?cm ` A)"
  proof (rule inj_onI)
    fix p q
    assume p: "p \<in> ?cm ` A" and q: "q \<in> ?cm ` A" and e: "?L p = ?L q"
    from p assms have mp: "1 \<le> snd p" "snd p \<le> 12"
      by (auto simp: calendar_month_def is_store_date_def)
    from q assms have mq: "1 \<le> snd q" "snd q \<le> 12"
      by (auto simp: calendar_month_def is_store_date_def)
    from month_label_inj [OF mp(1) mp(2) mq(1) mq(2) e] show "p = q"
      by (simp add: prod_eq_iff)
  qed
  have "(\<lambda>t. month_label_of (date t)) ` A = ?L ` (?cm ` A)"
    by (simp add: image_image month_label_of_def calendar_month_def)
  then show ?thesis using card_image [OF i] by simp
qed

text \<open>
  C1, as stated, fails on two counts. With the period granularity set to weekly (or
  yearly) the aggregation returns no bucket at all. With the granularity set to monthly the
  buckets are not sorted: the sort key \<open>parseISO(month + " 01")\<close> is an invalid date for
  every label, every comparison is \<open>NaN\<close>, and the buckets stay in the order in which the
  months are first met; for transactions listed by descending date, as the dashboard loads
  them, that is the reverse of the chronological order.
\<close>

theorem monthlyData_order_counterexample:
  "monthlyData Weekly
     [tx ''2024-03-05'' ''Food'' 30, tx ''2024-02-06'' ''Food'' 20, tx ''2024-01-07'' ''Rent'' 100] = Inr [] \<and>
   monthlyData Monthly
     [tx ''2024-03-05'' ''Food'' 30, tx ''2024-02-06'' ''Food'' 20, tx ''2024-01-07'' ''Rent'' 100] =
     Inr [\<lparr>month = ''Mar 2024'', total = 30, categories = [(''Food'', NumberV 30)], sortDate = NaN\<rparr>,
          \<lparr>month = ''Feb 2024'', total = 20, categories = [(''Food'', NumberV 20)], sortDate = NaN\<rparr>,
          \<lparr>month = ''Jan 2024'', total = 100, categories = [(''Rent'', NumberV 100)], sortDate = NaN\<rparr>]"
  by code_simp

text \<open>
  C1, amended: with the period granularity set to monthly, the aggregation takes the whole
  collection it is given (no time window is applied) and returns one bucket for each
  calendar month in which a transaction has a positive expense, labelled \<open>Mon YYYY\<close>, whose
  total is the sum of the positive expenses of the month rounded to two decimals; three
  distinct months give three buckets. With the granularity set to weekly or yearly it
  returns no bucket. This is stated for transactions whose dates are calendar days as the
  store prints them and whose categories are not names of properties of
  \<open>Object.prototype\<close>; nothing is said about the order of the buckets.
\<close>

theorem monthlyData_buckets:
  "((\<forall>t\<in>set transactions. expense t > 0 \<longrightarrow>
        is_store_date (date t) \<and> category t \<notin> set object_prototype_keys) \<longrightarrow>
    (\<exists>buckets. monthlyData Monthly transactions = Inr buckets \<and>
       distinct (map month buckets) \<and>
       set (map month buckets) = (\<lambda>t. month_label_of (date t)) ` set (with_expense transactions) \<and>
       length buckets = card ((\<lambda>t. calendar_month (date t)) ` set (with_expense transactions)) \<and>
       (\<forall>b\<in>set buckets.
          total b = toFixed2 (expense_of (\<lambda>t. month_label_of (date t) = month b) transactions)))) \<and>
   monthlyData Weekly transactions = Inr [] \<and>
   monthlyData Yearly transactions = Inr []"
proof (intro conjI impI)
  let ?key = "\<lambda>t. month_label_of (date t)"
  let ?ks = "map ?key (with_expense transactions)"
  assume h: "\<forall>t\<in>set transactions. expense t > 0 \<longrightarrow>
        is_store_date (date t) \<and> category t \<notin> set object_prototype_keys"
  from monthlyData_from_records [OF h] obtain acc where inv: "month_records acc transactions"
    and r: "monthlyData Monthly transactions = Inr (map bucket_of acc)" by blast
  have mm: "map month (map bucket_of acc) = first_occurrences ?ks"
    using inv by (simp add: month_records_def bucket_of_def o_def)
  have 1: "distinct (map month (map bucket_of acc))"
    unfolding mm by (rule distinct_first_occurrences)
  have 2: "set (map month (map bucket_of acc)) = ?key ` set (with_expense transactions)"
    unfolding mm by (simp add: set_first_occurrences)
  have sd: "\<forall>t\<in>set (with_expense transactions). is_store_date (date t)"
    using h by (auto simp: with_expense_def)
  have "length (map bucket_of acc) = length (map month (map bucket_of acc))" by simp
  also have "\<dots> = card (set (map month (map bucket_of acc)))"
    using 1 by (simp only: distinct_card)
  also have "\<dots> = card (?key ` set (with_expense transactions))" using 2 by simp
  also have "\<dots> = card ((\<lambda>t. calendar_month (date t)) ` set (with_expense transactions))"
    using sd by (rule calendar_month_count)
  finally have 3: "length (map bucket_of acc) =
      card ((\<lambda>t. calendar_month (date t)) ` set (with_expense transactions))" .
  have 4: "\<forall>b\<in>set (map bucket_of acc).
      total b = toFixed2 (expense_of (\<lambda>t. ?key t = month b) transactions)"
    using inv by (auto simp: month_records_def bucket_of_def)
  from r 1 2 3 4 show "\<exists>buckets. monthlyData Monthly transactions = Inr buckets \<and>
       distinct (map month buckets) \<and>
       set (map month buckets) = ?key ` set (with_expense transactions) \<and>
       length buckets = card ((\<lambda>t. calendar_month (date t)) ` set (with_expense transactions)) \<and>
       (\<forall>b\<in>set buckets. total b = toFixed2 (expense_of (\<lambda>t. ?key t = month b) transactions))"
    by (intro exI [of _ "map bucket_of acc"] conjI)
next
  show "monthlyData Weekly transactions = Inr []" by (simp add: monthlyData_def)
  show "monthlyData Yearly transactions = Inr []" by (simp add: monthlyData_def)
qed

theorem monthlyData_buckets_witness:
  "is_store_date ''2024-03-05'' \<and> is_store_date ''2024-02-06'' \<and> is_store_date ''2024-01-07'' \<and>
   ''Food'' \<notin> set object_prototype_keys \<and> ''Rent'' \<notin> set object_prototype_keys \<and>
   (\<exists>buckets.
      monthlyData Monthly
        [tx ''2024-03-05'' ''Food'' 30, tx ''2024-02-06'' ''Food'' 20, tx ''2024-01-07'' ''Rent'' 100] =
        Inr buckets \<and>
      distinct (map month buckets) \<and> length buckets = 3)"
proof -
  let ?x = "[tx ''2024-03-05'' ''Food'' 30, tx ''2024-02-06'' ''Food'' 20, tx ''2024-01-07'' ''Rent'' 100]"
  have d: "is_store_date ''2024-03-05''" "is_store_date ''2024-02-06''" "is_store_date ''2024-01-07''"
    by code_simp+
  have c: "''Food'' \<notin> set object_prototype_keys" "''Rent'' \<notin> set object_prototype_keys"
    by code_simp+
  have h: "\<forall>t\<in>set ?x. expense t > 0 \<longrightarrow>
      is_store_date (date t) \<and> category t \<notin> set object_prototype_keys"
    using d c by (simp add: tx_def)
  have w: "with_expense ?x = ?x" by (simp add: with_expense_def tx_def)
  have m: "calendar_month ''2024-03-05'' = (2024, 3)" "calendar_month ''2024-02-06'' = (2024, 2)"
    "calendar_month ''2024-01-07'' = (2024, 1)"
    by code_simp+
  have "card ((\<lambda>t. calendar_month (date t)) ` set (with_expense ?x)) = 3"
    unfolding w by (simp add: tx_def m)
  then show ?thesis using monthlyData_buckets [of ?x] h d c by auto
qed

end
